theory Spec2Isabelle
  imports Main "HOL-Library.Word"
begin

unbundle bit_operations_syntax

section \<open>aufs: file operations for special files (fs/aufs/f_op_sp.c)\<close>

text \<open>
  The file implements open, read, write and release for named pipes that exist
  in aufs virtually while their I/O is handled by the branch. The embedding
  below follows the C functions one by one. Everything a function calls that
  lives outside the file (lock primitives, the copy-up subsystem, the native
  pipe driver, the kernel's timestamp helpers) is recorded as an event in a
  trace; the values such calls return are supplied by an environment record.
\<close>

subsection \<open>Types and constants of the kernel\<close>

type_synonym umode_t = "16 word"
type_synonym fmode_t = "32 word"
type_synonym dev_t = "32 word"
type_synonym aufs_bindex_t = int

definition S_IFMT :: umode_t where "S_IFMT = 0xF000"
definition S_IFSOCK :: umode_t where "S_IFSOCK = 0xC000"
definition S_IFLNK :: umode_t where "S_IFLNK = 0xA000"
definition S_IFREG :: umode_t where "S_IFREG = 0x8000"
definition S_IFBLK :: umode_t where "S_IFBLK = 0x6000"
definition S_IFDIR :: umode_t where "S_IFDIR = 0x4000"
definition S_IFCHR :: umode_t where "S_IFCHR = 0x2000"
definition S_IFIFO :: umode_t where "S_IFIFO = 0x1000"

definition FMODE_READ :: fmode_t where "FMODE_READ = 1"
definition FMODE_WRITE :: fmode_t where "FMODE_WRITE = 2"

definition EROFS :: int where "EROFS = 30"

text \<open>
  A fatal stop of the kernel thread: \<open>BUG\<close> for \<open>BUG()\<close> and a failed
  \<open>AuDebugOn\<close>, \<open>Oops\<close> for the dereference of a NULL pointer or a call through
  a NULL function pointer, \<open>Hang\<close> for a \<open>spin_lock\<close> on a lock that nobody
  will release.
\<close>

datatype fatal = BUG | Oops | Hang

subsection \<open>Data model\<close>

text \<open>Function pointers: the three entry points of this file and the branch's own.\<close>

datatype fn = H_fn nat | Fn_aufs_open_sp | Fn_aufs_aio_read_sp | Fn_aufs_aio_write_sp
  | Fn_aufs_release_sp

text \<open>
  \<open>struct file_operations\<close>: the four members the file reads or writes, and
  the rest of the structure, which is only ever copied as a whole.
\<close>

record file_operations =
  fo_open :: "fn option"
  fo_aio_read :: "fn option"
  fo_aio_write :: "fn option"
  fo_release :: "fn option"
  fo_rest :: nat

text \<open>
  The table \<open>au_sp_fop[AuSp_Last]\<close> and the enumeration of its slots.
\<close>

datatype au_sp = AuSp_FIFO | AuSp_FIFO_R | AuSp_FIFO_W | AuSp_FIFO_RW

datatype spinlock_t = Spin_uninit | Spin_unlocked | Spin_locked nat

record au_sp_fop_t =
  sp_done :: int
  sp_fop :: file_operations
  sp_spin :: spinlock_t

text \<open>
  A file of a branch (\<open>h_file\<close>): the branch it was opened on, its \<open>f_op\<close>
  (a pointer, so possibly NULL) and the \<open>open\<close> member of its inode's \<open>i_fop\<close>.
\<close>

record h_file =
  hf_bindex :: aufs_bindex_t
  hf_f_op :: "file_operations option"
  hf_i_fop_open :: "fn option"

text \<open>
  \<open>struct file\<close> of aufs with its \<open>au_finfo\<close>: \<open>f_op\<close> points into the table
  above, \<open>fi_bstart\<close> is \<open>au_fbstart(file)\<close> and \<open>fi_hfile\<close> is
  \<open>au_h_fptr(file, bindex)\<close>.
\<close>

record file_t =
  f_mode :: fmode_t
  f_flags :: "32 word"
  f_op :: au_sp
  fi_bstart :: aufs_bindex_t
  fi_hfile :: "aufs_bindex_t \<rightharpoonup> h_file"

text \<open>
  \<open>struct dentry\<close> with its \<open>au_dinfo\<close>: \<open>di_bstart\<close> is \<open>au_dbstart(dentry)\<close>
  and \<open>di_hdentry\<close> tells for which branches \<open>au_h_dptr(dentry, bindex)\<close> is
  not NULL.
\<close>

record dentry =
  di_bstart :: aufs_bindex_t
  di_hdentry :: "aufs_bindex_t \<Rightarrow> bool"

text \<open>
  Modelled from the spec: \<open>struct au_branch\<close> with \<open>br_perm\<close>, and the macros
  \<open>au_br_writable\<close> and \<open>au_br_rdonly\<close>, are declared outside this file. The
  spec gives a branch one attribute that this file reads, "writability
  (boolean, derived from mount permission)".
\<close>

record au_branch =
  br_writable :: bool

definition au_br_writable :: "au_branch \<Rightarrow> bool" where
  "au_br_writable br = br_writable br"

definition au_br_rdonly :: "au_branch \<Rightarrow> bool" where
  "au_br_rdonly br = (\<not> br_writable br)"

text \<open>
  \<open>au_sbr(sb, bindex)\<close> reads the branch array of the superblock; an index
  outside the array yields no branch, and the caller dereferences it.
\<close>

definition au_sbr :: "au_branch list \<Rightarrow> aufs_bindex_t \<Rightarrow> au_branch option" where
  "au_sbr sb bindex =
     (if 0 \<le> bindex \<and> bindex < int (length sb) then Some (sb ! nat bindex) else None)"

text \<open>
  A \<open>struct file *\<close> handed to an entry point of the branch: it points to the
  file of aufs or to a file of a branch.
\<close>

datatype file_ptr = Aufs_file file_t | Branch_file h_file

text \<open>
  The calls that leave the file, in the order they are made. \<open>Call_aio_read f hf\<close>
  says that the entry point \<open>f\<close>, read from the table of the branch file \<open>hf\<close>,
  is called with the \<open>kiocb\<close> that the function of aufs received.
  \<open>Call_release f x\<close> says that the entry point \<open>f\<close> is called with the file \<open>x\<close>
  as its second argument.
\<close>

datatype event =
    Si_read_lock | Si_read_unlock | Si_noflush_read_lock
  | Fi_read_lock | Fi_read_unlock | Fi_write_lock | Fi_write_unlock
  | Di_read_unlock | Di_write_lock_child | Di_downgrade_lock | Di_read_lock_child
  | Di_write_lock_parent | Di_write_unlock | Dget_parent | Dput
  | Call_aio_read fn h_file | Call_aio_write fn h_file
  | File_accessed h_file | File_update_time h_file
  | Call_release fn file_ptr | Aufs_release_nondir
  | Au_cpup_dirs aufs_bindex_t | Au_pin aufs_bindex_t | Au_unpin
  | Au_sio_cpup_simple aufs_bindex_t
  | Au_do_open_nondir | Call_open fn | Au_finfo_fin

text \<open>
  The state the functions work on: the branches of the superblock, the dentry
  of the file and its ancestors (parent first), the file, the table
  \<open>au_sp_fop\<close> with the function-static spinlock of \<open>au_init_fop_sp\<close>, and
  the trace.
\<close>

record state =
  sb :: "au_branch list"
  dent :: dentry
  ancestors :: "dentry list"
  filp :: file_t
  au_sp_fop :: "au_sp \<Rightarrow> au_sp_fop_t"
  static_spin :: spinlock_t
  trace :: "event list"

definition emit :: "event list \<Rightarrow> state \<Rightarrow> state" where
  "emit es s = s\<lparr>trace := trace s @ es\<rparr>"

text \<open>
  What the environment decides: the values returned by the calls that leave the
  file, the branch file that \<open>au_do_open_nondir\<close> opens, what other threads
  did to the dentry and its ancestors while the open had dropped the dentry's
  lock, and whether \<open>AuDebugOn\<close> is compiled in (the macro is declared outside
  this file: either it stops the kernel when its argument holds, or it
  expands to nothing).
\<close>

record env =
  debug :: bool
  ret_aio_read :: int
  ret_aio_write :: int
  ret_release :: int
  ret_cpup_dirs :: int
  ret_pin :: int
  ret_cpup_simple :: int
  ret_open_nondir :: int
  new_h_file :: h_file
  ret_open :: int
  relock :: "dentry \<times> dentry list \<Rightarrow> dentry \<times> dentry list"


subsection \<open>Read and write\<close>

text \<open>
  \<open>aufs_aio_read_sp\<close>: resolve the branch file under the locks, note whether
  its branch is writable, call the branch's \<open>aio_read\<close> and touch the access
  time after a positive result on a writable branch.
\<close>

definition aufs_aio_read_sp :: "env \<Rightarrow> state \<Rightarrow> fatal + (int \<times> state)" where
  "aufs_aio_read_sp e s0 =
     (let s = emit [Si_read_lock, Fi_read_lock] s0;
          bstart = fi_bstart (filp s);
          h_file = fi_hfile (filp s) bstart;
          s = emit [Fi_read_unlock] s
      in case au_sbr (sb s) bstart of
           None \<Rightarrow> Inl Oops
         | Some br \<Rightarrow>
             let wbr = au_br_writable br;
                 s = emit [Si_read_unlock] s
             in (case h_file of
                   None \<Rightarrow> Inl Oops
                 | Some hf \<Rightarrow>
                     (case hf_f_op hf of
                        None \<Rightarrow> Inl (if debug e then BUG else Oops)
                      | Some ops \<Rightarrow>
                          (case fo_aio_read ops of
                             None \<Rightarrow> Inl (if debug e then BUG else Oops)
                           | Some f \<Rightarrow>
                               let err = ret_aio_read e;
                                   s = emit [Call_aio_read f hf] s
                               in Inr (err, if err > 0 \<and> wbr
                                            then emit [File_accessed hf] s else s)))))"

text \<open>\<open>aufs_aio_write_sp\<close>: the same with \<open>aio_write\<close> and \<open>file_update_time\<close>.\<close>

definition aufs_aio_write_sp :: "env \<Rightarrow> state \<Rightarrow> fatal + (int \<times> state)" where
  "aufs_aio_write_sp e s0 =
     (let s = emit [Si_read_lock, Fi_read_lock] s0;
          bstart = fi_bstart (filp s);
          h_file = fi_hfile (filp s) bstart;
          s = emit [Fi_read_unlock] s
      in case au_sbr (sb s) bstart of
           None \<Rightarrow> Inl Oops
         | Some br \<Rightarrow>
             let wbr = au_br_writable br;
                 s = emit [Si_read_unlock] s
             in (case h_file of
                   None \<Rightarrow> Inl Oops
                 | Some hf \<Rightarrow>
                     (case hf_f_op hf of
                        None \<Rightarrow> Inl (if debug e then BUG else Oops)
                      | Some ops \<Rightarrow>
                          (case fo_aio_write ops of
                             None \<Rightarrow> Inl (if debug e then BUG else Oops)
                           | Some f \<Rightarrow>
                               let err = ret_aio_write e;
                                   s = emit [Call_aio_write f hf] s
                               in Inr (err, if err > 0 \<and> wbr
                                            then emit [File_update_time hf] s else s)))))"

subsection \<open>Release\<close>

text \<open>
  Modelled from the spec: \<open>aufs_release_nondir\<close> is defined outside this file.
  The spec calls it "the generic non-directory teardown of the logical object
  (detach handles, release registry entry)". Its return value is ignored by
  the caller.
\<close>

definition aufs_release_nondir :: "state \<Rightarrow> state" where
  "aufs_release_nondir s =
     emit [Aufs_release_nondir] (s\<lparr>filp := (filp s)\<lparr>fi_bstart := - 1, fi_hfile := Map.empty\<rparr>\<rparr>)"

text \<open>
  \<open>aufs_release_sp\<close>: the \<open>release\<close> member is read from the branch file at
  \<open>au_fbstart(file)\<close> and called as \<open>release(inode, file)\<close>, with the inode and
  file of aufs ("close this fifo in aufs"); then \<open>aufs_release_nondir\<close> runs, and
  the first result is returned.
\<close>

definition aufs_release_sp :: "env \<Rightarrow> state \<Rightarrow> fatal + (int \<times> state)" where
  "aufs_release_sp e s0 =
     (let s = emit [Fi_read_lock] s0;
          h_file = fi_hfile (filp s) (fi_bstart (filp s));
          s = emit [Fi_read_unlock] s
      in case h_file of
           None \<Rightarrow> Inl Oops
         | Some hf \<Rightarrow>
             (case hf_f_op hf of
                None \<Rightarrow> Inl Oops
              | Some ops \<Rightarrow>
                  (case fo_release ops of
                     None \<Rightarrow> Inl Oops
                   | Some f \<Rightarrow>
                       let err = ret_release e;
                           s = emit [Call_release f (Aufs_file (filp s))] s;
                           s = aufs_release_nondir s
                       in Inr (err, s))))"

subsection \<open>The table of file operations\<close>

text \<open>
  The static initialiser of \<open>au_sp_fop\<close>: everything zero, except \<open>open\<close> in
  the slot \<open>AuSp_FIFO\<close>.
\<close>

definition zero_fop :: file_operations where
  "zero_fop = \<lparr>fo_open = None, fo_aio_read = None, fo_aio_write = None,
                fo_release = None, fo_rest = 0\<rparr>"

definition au_sp_fop_static :: "au_sp \<Rightarrow> au_sp_fop_t" where
  "au_sp_fop_static i =
     \<lparr>sp_done = 0,
      sp_fop = (if i = AuSp_FIFO then zero_fop\<lparr>fo_open := Some Fn_aufs_open_sp\<rparr> else zero_fop),
      sp_spin = Spin_uninit\<rparr>"

text \<open>The \<open>switch\<close> on \<open>file->f_mode & (FMODE_READ | FMODE_WRITE)\<close>; \<open>None\<close> is \<open>default\<close>.\<close>

definition au_sp_index :: "fmode_t \<Rightarrow> au_sp option" where
  "au_sp_index m =
     (let x = m AND (FMODE_READ OR FMODE_WRITE)
      in if x = FMODE_READ then Some AuSp_FIFO_R
         else if x = FMODE_WRITE then Some AuSp_FIFO_W
         else if x = (FMODE_READ OR FMODE_WRITE) then Some AuSp_FIFO_RW
         else None)"

text \<open>The loop \<open>for (i = 0; i < AuSp_Last; i++) spin_lock_init(&p[i].spin)\<close>.\<close>

definition spin_lock_init_all :: "(au_sp \<Rightarrow> au_sp_fop_t) \<Rightarrow> au_sp \<Rightarrow> au_sp_fop_t" where
  "spin_lock_init_all p = (\<lambda>i. (p i)\<lparr>sp_spin := Spin_unlocked\<rparr>)"

text \<open>Lines 161 to 166: the copy of the branch's table with three members replaced.\<close>

definition au_sp_subst :: "file_operations \<Rightarrow> file_operations" where
  "au_sp_subst h =
     (let f = h;
          f = (if fo_aio_read f \<noteq> None then f\<lparr>fo_aio_read := Some Fn_aufs_aio_read_sp\<rparr> else f);
          f = (if fo_aio_write f \<noteq> None then f\<lparr>fo_aio_write := Some Fn_aufs_aio_write_sp\<rparr> else f)
      in f\<lparr>fo_release := Some Fn_aufs_release_sp\<rparr>)"

text \<open>
  \<open>au_init_fop_sp\<close> as one thread runs it from entry to return. A lock that is
  taken and released again leaves no change; a lock that is not free when
  \<open>spin_lock\<close> is called stops the thread.
\<close>

definition au_init_fop_sp :: "state \<Rightarrow> fatal + state" where
  "au_init_fop_sp s0 =
     (case (if sp_done (au_sp_fop s0 AuSp_FIFO) = 0
            then (if static_spin s0 \<noteq> Spin_unlocked then Inl Hang
                  else Inr (s0\<lparr>au_sp_fop :=
                         (spin_lock_init_all (au_sp_fop s0))
                           (AuSp_FIFO := (spin_lock_init_all (au_sp_fop s0) AuSp_FIFO)\<lparr>sp_done := 1\<rparr>)\<rparr>))
            else Inr s0) of
        Inl x \<Rightarrow> Inl x
      | Inr s \<Rightarrow>
          (case au_sp_index (f_mode (filp s)) of
             None \<Rightarrow> Inl BUG
           | Some i \<Rightarrow>
               let p = au_sp_fop s i
               in (case (if sp_done p = 0
                         then (let h_file = fi_hfile (filp s) (fi_bstart (filp s))
                               in if sp_spin p \<noteq> Spin_unlocked then Inl Hang
                                  else (case h_file of
                                          None \<Rightarrow> Inl Oops
                                        | Some hf \<Rightarrow>
                                            (case hf_f_op hf of
                                               None \<Rightarrow> Inl Oops
                                             | Some h_fop \<Rightarrow>
                                                 Inr (s\<lparr>au_sp_fop := (au_sp_fop s)
                                                        (i := p\<lparr>sp_fop := au_sp_subst h_fop,
                                                                sp_done := 1\<rparr>)\<rparr>))))
                         else Inr s) of
                     Inl x \<Rightarrow> Inl x
                   | Inr s \<Rightarrow> Inr (s\<lparr>filp := (filp s)\<lparr>f_op := i\<rparr>\<rparr>))))"


subsection \<open>Copy-up\<close>

text \<open>
  Modelled from the spec: \<open>au_cpup_dirs\<close> is defined outside this file. The
  spec: "recursively ensure the parent's ancestors exist there first
  (directory-only copy-up), walking upward only as far as needed; already-present
  ancestors stop the recursion", and "failure at any step aborts without partial
  branch-index updates".
\<close>

fun cpup_dirs_upward :: "aufs_bindex_t \<Rightarrow> dentry list \<Rightarrow> dentry list" where
  "cpup_dirs_upward bdst [] = []"
| "cpup_dirs_upward bdst (d # ds) =
     (if di_hdentry d bdst then d # ds
      else d\<lparr>di_hdentry := (di_hdentry d)(bdst := True)\<rparr> # cpup_dirs_upward bdst ds)"

definition au_cpup_dirs :: "env \<Rightarrow> aufs_bindex_t \<Rightarrow> state \<Rightarrow> int \<times> state" where
  "au_cpup_dirs e bdst s0 =
     (let s = emit [Au_cpup_dirs bdst] s0
      in if ret_cpup_dirs e \<noteq> 0 then (ret_cpup_dirs e, s)
         else (0, s\<lparr>ancestors := cpup_dirs_upward bdst (ancestors s)\<rparr>))"

text \<open>
  Modelled from the spec: \<open>au_pin\<close> and \<open>au_unpin\<close> are defined outside this
  file. The spec: "a transient bundle of locks and branch references held
  across a single copy-up", "released unconditionally when the operation ends".
\<close>

definition au_pin :: "env \<Rightarrow> aufs_bindex_t \<Rightarrow> state \<Rightarrow> int \<times> state" where
  "au_pin e bcpup s = (ret_pin e, emit [Au_pin bcpup] s)"

definition au_unpin :: "state \<Rightarrow> state" where
  "au_unpin s = emit [Au_unpin] s"

text \<open>
  Modelled from the spec: \<open>au_sio_cpup_simple\<close> is defined outside this file.
  The spec: "create a matching special-file entry in the target branch", "on
  success the start branch index is updated to the new branch", and "failure at
  any step aborts without partial branch-index updates".
\<close>

definition au_sio_cpup_simple :: "env \<Rightarrow> aufs_bindex_t \<Rightarrow> state \<Rightarrow> int \<times> state" where
  "au_sio_cpup_simple e bdst s0 =
     (let s = emit [Au_sio_cpup_simple bdst] s0
      in if ret_cpup_simple e \<noteq> 0 then (ret_cpup_simple e, s)
         else (0, s\<lparr>dent := (dent s)\<lparr>di_bstart := bdst,
                                     di_hdentry := (di_hdentry (dent s))(bdst := True)\<rparr>\<rparr>))"

text \<open>
  \<open>dget_parent(dentry)\<close>: the first ancestor; the root of the tree is its own
  parent.
\<close>

definition dget_parent :: "state \<Rightarrow> dentry" where
  "dget_parent s = (case ancestors s of [] \<Rightarrow> dent s | parent # _ \<Rightarrow> parent)"

text \<open>\<open>au_cpup_sp\<close>, with \<open>goto out\<close> as the early result.\<close>

definition au_cpup_sp :: "env \<Rightarrow> aufs_bindex_t \<Rightarrow> state \<Rightarrow> int \<times> state" where
  "au_cpup_sp e bcpup s0 =
     (let parent = dget_parent s0;
          s = emit [Dget_parent, Di_write_lock_parent] s0;
          (err, s) = (if \<not> di_hdentry parent bcpup then au_cpup_dirs e bcpup s else (0, s))
      in if err \<noteq> 0 then (err, emit [Di_write_unlock, Dput] s)
         else
           let (err, s) = au_pin e bcpup s;
               (err, s) = (if err = 0
                           then (let (err, s) = au_sio_cpup_simple e bcpup s
                                 in (err, au_unpin s))
                           else (err, s))
           in (err, emit [Di_write_unlock, Dput] s))"

subsection \<open>Open\<close>

text \<open>The loop of lines 222 to 226; \<open>- 1\<close> when it runs to its end.\<close>

function au_scan :: "au_branch list \<Rightarrow> aufs_bindex_t \<Rightarrow> aufs_bindex_t \<Rightarrow> fatal + aufs_bindex_t" where
  "au_scan brs bindex bend =
     (if bindex < bend
      then (case au_sbr brs bindex of
              None \<Rightarrow> Inl Oops
            | Some br \<Rightarrow> if \<not> au_br_rdonly br then Inr bindex else au_scan brs (bindex + 1) bend)
      else Inr (- 1))"
  by pat_completeness auto
termination
  by (relation "measure (\<lambda>(brs, bindex, bend). nat (bend - bindex))") auto

declare au_scan.simps [simp del]

text \<open>
  \<open>di_write_lock_child\<close> after \<open>di_read_unlock\<close>: while the lock was dropped
  other threads may have changed the dentry and its ancestors.
\<close>

definition di_write_lock_child :: "env \<Rightarrow> state \<Rightarrow> state" where
  "di_write_lock_child e s =
     (let (d, ps) = relock e (dent s, ancestors s)
      in emit [Di_write_lock_child] (s\<lparr>dent := d, ancestors := ps\<rparr>))"

text \<open>
  Modelled from the spec: \<open>au_do_open_nondir\<close> is defined outside this file.
  The spec: "perform the branch-native open against the (possibly updated)
  authoritative branch, obtaining a branch-resident handle; store it in the
  logical object's handle array at the authoritative slot".
\<close>

definition au_do_open_nondir :: "env \<Rightarrow> state \<Rightarrow> int \<times> state" where
  "au_do_open_nondir e s0 =
     (let s = emit [Au_do_open_nondir] s0;
          bstart = di_bstart (dent s)
      in if ret_open_nondir e \<noteq> 0 then (ret_open_nondir e, s)
         else (0, s\<lparr>filp := (filp s)\<lparr>fi_bstart := bstart,
                       fi_hfile := (fi_hfile (filp s))(bstart \<mapsto> (new_h_file e)\<lparr>hf_bindex := bstart\<rparr>)\<rparr>\<rparr>))"

text \<open>
  Modelled from the spec: \<open>au_finfo_fin\<close> is defined outside this file. The
  spec: "on failure, discard the branch-resident handle and propagate the
  error".
\<close>

definition au_finfo_fin :: "state \<Rightarrow> state" where
  "au_finfo_fin s =
     emit [Au_finfo_fin] (s\<lparr>filp := (filp s)\<lparr>fi_bstart := - 1, fi_hfile := Map.empty\<rparr>\<rparr>)"

text \<open>
  \<open>au_do_open_sp\<close>. The first part (lines 216 to 238) yields \<open>err\<close>; the second
  opens the branch file, calls the pipe's own \<open>open\<close> with the dentry and file
  locks dropped, and installs the table of operations.
\<close>

definition au_do_open_sp :: "env \<Rightarrow> state \<Rightarrow> fatal + (int \<times> state)" where
  "au_do_open_sp e s0 =
     (let bend = di_bstart (dent s0)
      in case au_sbr (sb s0) bend of
           None \<Rightarrow> Inl Oops
         | Some br \<Rightarrow>
             (case (if au_br_rdonly br
                    then (case au_scan (sb s0) 0 bend of
                            Inl x \<Rightarrow> Inl x
                          | Inr bcpup \<Rightarrow>
                              if bcpup \<ge> 0
                              then (let s = emit [Di_read_unlock] s0;
                                        s = di_write_lock_child e s;
                                        (err, s) = (if bcpup < di_bstart (dent s)
                                                    then au_cpup_sp e bcpup s else (0, s));
                                        s = emit [Di_downgrade_lock] s
                                    in Inr (err, s))
                              else Inr (- EROFS, s0))
                    else Inr (0, s0)) of
                Inl x \<Rightarrow> Inl x
              | Inr (err, s) \<Rightarrow>
                  if err \<noteq> 0 then Inr (err, s)
                  else
                    let (err, s) = au_do_open_nondir e s
                    in if err \<noteq> 0 then Inr (err, s)
                       else (case fi_hfile (filp s) (fi_bstart (filp s)) of
                               None \<Rightarrow> Inl Oops
                             | Some h_file \<Rightarrow>
                                 (case hf_i_fop_open h_file of
                                    None \<Rightarrow> Inl Oops
                                  | Some h_open \<Rightarrow>
                                      let s = emit [Di_read_unlock, Fi_write_unlock, Si_read_unlock,
                                                    Call_open h_open, Si_noflush_read_lock,
                                                    Fi_write_lock, Di_read_lock_child] s;
                                          err = ret_open e
                                      in if err = 0
                                         then (case au_init_fop_sp s of
                                                 Inl x \<Rightarrow> Inl x
                                               | Inr s \<Rightarrow> Inr (err, s))
                                         else Inr (err, au_finfo_fin s)))))"

subsection \<open>Special inodes\<close>

text \<open>\<open>struct inode\<close>: the mode, the device and where \<open>i_fop\<close> points.\<close>

datatype i_fop_ptr = Au_sp_fop_of au_sp | Kernel_fops nat

record inode =
  i_mode :: umode_t
  i_rdev :: dev_t
  i_fop :: i_fop_ptr

text \<open>
  \<open>au_init_special_fop\<close>. The kernel's \<open>init_special_inode\<close> is a parameter.
  The \<open>case\<close> for a pipe sets \<open>i_fop\<close> and falls through to the shared
  \<open>break\<close>; \<open>AuDebugOn(1)\<close> is the \<open>default\<close>.
\<close>

definition au_init_special_fop ::
  "bool \<Rightarrow> (inode \<Rightarrow> umode_t \<Rightarrow> dev_t \<Rightarrow> inode) \<Rightarrow> inode \<Rightarrow> umode_t \<Rightarrow> dev_t \<Rightarrow> fatal + inode" where
  "au_init_special_fop au_debug init_special_inode inode0 mode rdev =
     (let inode = init_special_inode inode0 mode rdev;
          t = mode AND S_IFMT
      in if t = S_IFIFO then Inr (inode\<lparr>i_fop := Au_sp_fop_of AuSp_FIFO\<rparr>)
         else if t = S_IFCHR \<or> t = S_IFBLK \<or> t = S_IFSOCK then Inr inode
         else if au_debug then Inl BUG else Inr inode)"

text \<open>\<open>au_special_file\<close>; the three other cases are compiled out by \<open>#if 0\<close>.\<close>

definition au_special_file :: "umode_t \<Rightarrow> int" where
  "au_special_file mode = (if mode AND S_IFMT = S_IFIFO then 1 else 0)"

subsection \<open>Notions used to state the properties\<close>

text \<open>The events a function added to the trace, and projections of a result.\<close>

definition events_since :: "state \<Rightarrow> state \<Rightarrow> event list" where
  "events_since s s' = drop (length (trace s)) (trace s')"

definition ret_and_trace :: "fatal + (int \<times> state) \<Rightarrow> fatal + (int \<times> event list)" where
  "ret_and_trace r = (case r of Inl x \<Rightarrow> Inl x | Inr (err, s) \<Rightarrow> Inr (err, trace s))"

definition ret_and_bstart ::
  "fatal + (int \<times> state) \<Rightarrow> fatal + (int \<times> aufs_bindex_t \<times> aufs_bindex_t)" where
  "ret_and_bstart r =
     (case r of Inl x \<Rightarrow> Inl x
      | Inr (err, s) \<Rightarrow> Inr (err, di_bstart (dent s), fi_bstart (filp s)))"

text \<open>
  Lines 240 to 263 of \<open>au_do_open_sp\<close> as a function of the state reached at
  line 238; \<open>au_do_open_sp_split\<close> below shows that \<open>au_do_open_sp\<close> is its first
  part followed by this.
\<close>

definition open_sp_rest :: "env \<Rightarrow> state \<Rightarrow> fatal + (int \<times> state)" where
  "open_sp_rest e s3 =
     (let (err, s) = au_do_open_nondir e s3
      in if err \<noteq> 0 then Inr (err, s)
         else (case fi_hfile (filp s) (fi_bstart (filp s)) of
                 None \<Rightarrow> Inl Oops
               | Some h_file \<Rightarrow>
                   (case hf_i_fop_open h_file of
                      None \<Rightarrow> Inl Oops
                    | Some h_open \<Rightarrow>
                        let s = emit [Di_read_unlock, Fi_write_unlock, Si_read_unlock,
                                      Call_open h_open, Si_noflush_read_lock,
                                      Fi_write_lock, Di_read_lock_child] s;
                            err = ret_open e
                        in if err = 0
                           then (case au_init_fop_sp s of
                                   Inl x \<Rightarrow> Inl x
                                 | Inr s \<Rightarrow> Inr (err, s))
                           else Inr (err, au_finfo_fin s))))"

text \<open>Two opens of the same file, one after the other.\<close>

definition open_twice :: "env \<Rightarrow> state \<Rightarrow> fatal + (int \<times> state)" where
  "open_twice e s =
     (case au_do_open_sp e s of Inl x \<Rightarrow> Inl x | Inr (err, s') \<Rightarrow> au_do_open_sp e s')"

subsection \<open>A concrete mount\<close>

text \<open>
  Two branches, the lower one read-only and holding the pipe, the upper one
  writable or not; the root directory exists on both. The file is about to be
  opened for writing. In \<open>ex_opened\<close> the pipe is open on a single branch.
\<close>

definition ex_fifo_fops :: file_operations where
  "ex_fifo_fops = \<lparr>fo_open = Some (H_fn 0), fo_aio_read = Some (H_fn 1),
                    fo_aio_write = Some (H_fn 2), fo_release = Some (H_fn 3), fo_rest = 7\<rparr>"

definition ex_h_file :: "aufs_bindex_t \<Rightarrow> h_file" where
  "ex_h_file b = \<lparr>hf_bindex = b, hf_f_op = Some ex_fifo_fops, hf_i_fop_open = Some (H_fn 0)\<rparr>"

definition ex_env :: env where
  "ex_env = \<lparr>debug = True, ret_aio_read = 5, ret_aio_write = 5, ret_release = - 5,
              ret_cpup_dirs = 0, ret_pin = 0, ret_cpup_simple = 0, ret_open_nondir = 0,
              new_h_file = ex_h_file 0, ret_open = 0, relock = id\<rparr>"

definition ex_env_pin_fails :: env where
  "ex_env_pin_fails = ex_env\<lparr>ret_pin := - 13\<rparr>"

definition ex_closed :: "bool \<Rightarrow> state" where
  "ex_closed w =
     \<lparr>sb = [\<lparr>br_writable = w\<rparr>, \<lparr>br_writable = False\<rparr>],
      dent = \<lparr>di_bstart = 1, di_hdentry = (\<lambda>i. i = 1)\<rparr>,
      ancestors = [\<lparr>di_bstart = 0, di_hdentry = (\<lambda>i. i = 0 \<or> i = 1)\<rparr>],
      filp = \<lparr>f_mode = FMODE_WRITE, f_flags = 1, f_op = AuSp_FIFO, fi_bstart = - 1,
              fi_hfile = Map.empty\<rparr>,
      au_sp_fop = au_sp_fop_static,
      static_spin = Spin_unlocked,
      trace = []\<rparr>"

definition ex_opened :: "bool \<Rightarrow> state" where
  "ex_opened w =
     \<lparr>sb = [\<lparr>br_writable = w\<rparr>],
      dent = \<lparr>di_bstart = 0, di_hdentry = (\<lambda>i. i = 0)\<rparr>,
      ancestors = [],
      filp = \<lparr>f_mode = FMODE_WRITE, f_flags = 1, f_op = AuSp_FIFO_W, fi_bstart = 0,
              fi_hfile = [0 \<mapsto> ex_h_file 0]\<rparr>,
      au_sp_fop = au_sp_fop_static,
      static_spin = Spin_unlocked,
      trace = []\<rparr>"




text \<open>An \<open>init_special_inode\<close> that stores the mode and the device and nothing else.\<close>

definition plain_init_special_inode :: "inode \<Rightarrow> umode_t \<Rightarrow> dev_t \<Rightarrow> inode" where
  "plain_init_special_inode inode mode rdev = inode\<lparr>i_mode := mode, i_rdev := rdev\<rparr>"

definition ex_inode :: inode where
  "ex_inode = \<lparr>i_mode = 0, i_rdev = 0, i_fop = Kernel_fops 0\<rparr>"

subsection \<open>\<open>au_init_fop_sp\<close> run by several threads\<close>

text \<open>
  The table \<open>au_sp_fop\<close> and the function-static spinlock are shared by all
  opens, and \<open>au_init_fop_sp\<close> reads the \<open>done\<close> flags without a lock. To
  follow what several threads do to the table, the function is cut into its
  statements, named by their line in the source. A thread owns its \<open>struct file\<close>
  (the mode, the branch file and \<open>f_op\<close>) and the local \<open>i\<close>; a step of a
  thread executes the statement it is at. Memory is sequentially consistent.
\<close>

datatype pc =
    L126 | L130 | L131 | L135 "au_sp list" | L136 | L138
  | L141
  | L156 | L159 | L160 | L161 | L162 | L164 | L166 | L167 | L169
  | L171 | Ret | Stopped fatal

record thread =
  pc :: pc
  t_f_mode :: fmode_t
  t_h_file :: "h_file option"
  t_i :: au_sp
  t_f_op :: au_sp

text \<open>
  The shared memory, the threads, and \<open>copies\<close>, which notes every execution
  of line 161 (\<open>p->fop = *h_file->f_op\<close>) with the slot written.
\<close>

record sys =
  tbl :: "au_sp \<Rightarrow> au_sp_fop_t"
  sspin :: spinlock_t
  copies :: "au_sp list"
  threads :: "nat \<Rightarrow> thread"

definition goto :: "nat \<Rightarrow> pc \<Rightarrow> sys \<Rightarrow> sys" where
  "goto t l g = g\<lparr>threads := (threads g)(t := (threads g t)\<lparr>pc := l\<rparr>)\<rparr>"

definition upd_slot :: "au_sp \<Rightarrow> (au_sp_fop_t \<Rightarrow> au_sp_fop_t) \<Rightarrow> sys \<Rightarrow> sys" where
  "upd_slot i f g = g\<lparr>tbl := (tbl g)(i := f (tbl g i))\<rparr>"

text \<open>
  One step of thread \<open>t\<close>. \<open>spin_lock\<close> on a lock held by another thread spins:
  the state stays as it is. A thread that has returned or stopped does nothing.
\<close>

definition step :: "nat \<Rightarrow> sys \<Rightarrow> sys" where
  "step t g =
     (let th = threads g t;
          i = t_i th;
          p = tbl g i
      in case pc th of
           L126 \<Rightarrow> goto t (if sp_done (tbl g AuSp_FIFO) = 0 then L130 else L141) g
         | L130 \<Rightarrow>
             (case sspin g of
                Spin_unlocked \<Rightarrow> goto t L131 (g\<lparr>sspin := Spin_locked t\<rparr>)
              | Spin_locked _ \<Rightarrow> g
              | Spin_uninit \<Rightarrow> goto t (Stopped Hang) g)
         | L131 \<Rightarrow>
             goto t (if sp_done (tbl g AuSp_FIFO) = 0
                     then L135 [AuSp_FIFO, AuSp_FIFO_R, AuSp_FIFO_W, AuSp_FIFO_RW]
                     else L138) g
         | L135 rest \<Rightarrow>
             (case rest of
                [] \<Rightarrow> goto t L136 g
              | j # rest' \<Rightarrow>
                  goto t (L135 rest') (upd_slot j (\<lambda>q. q\<lparr>sp_spin := Spin_unlocked\<rparr>) g))
         | L136 \<Rightarrow> goto t L138 (upd_slot AuSp_FIFO (\<lambda>q. q\<lparr>sp_done := 1\<rparr>) g)
         | L138 \<Rightarrow> goto t L141 (g\<lparr>sspin := Spin_unlocked\<rparr>)
         | L141 \<Rightarrow>
             (case au_sp_index (t_f_mode th) of
                None \<Rightarrow> goto t (Stopped BUG) g
              | Some k \<Rightarrow> g\<lparr>threads := (threads g)(t := th\<lparr>pc := L156, t_i := k\<rparr>)\<rparr>)
         | L156 \<Rightarrow> goto t (if sp_done p = 0 then L159 else L171) g
         | L159 \<Rightarrow>
             (case sp_spin p of
                Spin_unlocked \<Rightarrow> goto t L160 (upd_slot i (\<lambda>q. q\<lparr>sp_spin := Spin_locked t\<rparr>) g)
              | Spin_locked _ \<Rightarrow> g
              | Spin_uninit \<Rightarrow> goto t (Stopped Hang) g)
         | L160 \<Rightarrow> goto t (if sp_done p = 0 then L161 else L169) g
         | L161 \<Rightarrow>
             (case t_h_file th of
                None \<Rightarrow> goto t (Stopped Oops) g
              | Some hf \<Rightarrow>
                  (case hf_f_op hf of
                     None \<Rightarrow> goto t (Stopped Oops) g
                   | Some h \<Rightarrow>
                       goto t L162 (upd_slot i (\<lambda>q. q\<lparr>sp_fop := h\<rparr>)
                                      (g\<lparr>copies := copies g @ [i]\<rparr>))))
         | L162 \<Rightarrow>
             goto t L164
               (if fo_aio_read (sp_fop p) \<noteq> None
                then upd_slot i (\<lambda>q. q\<lparr>sp_fop := (sp_fop q)\<lparr>fo_aio_read := Some Fn_aufs_aio_read_sp\<rparr>\<rparr>) g
                else g)
         | L164 \<Rightarrow>
             goto t L166
               (if fo_aio_write (sp_fop p) \<noteq> None
                then upd_slot i (\<lambda>q. q\<lparr>sp_fop := (sp_fop q)\<lparr>fo_aio_write := Some Fn_aufs_aio_write_sp\<rparr>\<rparr>) g
                else g)
         | L166 \<Rightarrow>
             goto t L167
               (upd_slot i (\<lambda>q. q\<lparr>sp_fop := (sp_fop q)\<lparr>fo_release := Some Fn_aufs_release_sp\<rparr>\<rparr>) g)
         | L167 \<Rightarrow> goto t L169 (upd_slot i (\<lambda>q. q\<lparr>sp_done := 1\<rparr>) g)
         | L169 \<Rightarrow> goto t L171 (upd_slot i (\<lambda>q. q\<lparr>sp_spin := Spin_unlocked\<rparr>) g)
         | L171 \<Rightarrow> g\<lparr>threads := (threads g)(t := th\<lparr>pc := Ret, t_f_op := i\<rparr>)\<rparr>
         | Ret \<Rightarrow> g
         | Stopped _ \<Rightarrow> g)"

text \<open>A schedule names the thread that moves next; \<open>run\<close> follows a schedule.\<close>

fun run :: "nat list \<Rightarrow> sys \<Rightarrow> sys" where
  "run [] g = g"
| "run (t # ts) g = run ts (step t g)"

text \<open>
  The system after the module is loaded: the table as its static initialiser
  leaves it, the static spinlock unlocked (\<open>DEFINE_SPINLOCK\<close>), nothing copied,
  and every thread at the entry of \<open>au_init_fop_sp\<close> with its own file, whose
  \<open>f_op\<close> still points to the slot \<open>AuSp_FIFO\<close>.
\<close>

definition init_sys :: "(nat \<Rightarrow> fmode_t) \<Rightarrow> (nat \<Rightarrow> h_file option) \<Rightarrow> sys" where
  "init_sys modes h_files =
     \<lparr>tbl = au_sp_fop_static,
      sspin = Spin_unlocked,
      copies = [],
      threads = (\<lambda>t. \<lparr>pc = L126, t_f_mode = modes t, t_h_file = h_files t,
                      t_i = AuSp_FIFO, t_f_op = AuSp_FIFO\<rparr>)\<rparr>"

text \<open>
  Sets of program points: before the \<open>switch\<close> (\<open>early\<close>), between \<open>spin_lock\<close>
  and \<open>spin_unlock\<close> of the static lock (\<open>holds_static\<close>) and of the slot's lock
  (\<open>holds_slot\<close>), inside the inner \<open>if (!p->done)\<close> (\<open>writing\<close>), after line 161
  and before the unlock (\<open>after_copy\<close>), and with \<open>i\<close> assigned (\<open>chosen\<close>).
\<close>

fun early :: "pc \<Rightarrow> bool" where
  "early L126 = True" | "early L130 = True" | "early L131 = True" | "early (L135 _) = True"
| "early L136 = True" | "early _ = False"

fun holds_static :: "pc \<Rightarrow> bool" where
  "holds_static L131 = True" | "holds_static (L135 _) = True" | "holds_static L136 = True"
| "holds_static L138 = True" | "holds_static _ = False"

fun holds_slot :: "pc \<Rightarrow> bool" where
  "holds_slot L160 = True" | "holds_slot L161 = True" | "holds_slot L162 = True"
| "holds_slot L164 = True" | "holds_slot L166 = True" | "holds_slot L167 = True"
| "holds_slot L169 = True" | "holds_slot _ = False"

fun writing :: "pc \<Rightarrow> bool" where
  "writing L161 = True" | "writing L162 = True" | "writing L164 = True"
| "writing L166 = True" | "writing L167 = True" | "writing _ = False"

fun after_copy :: "pc \<Rightarrow> bool" where
  "after_copy L162 = True" | "after_copy L164 = True"
| "after_copy L166 = True" | "after_copy L167 = True" | "after_copy _ = False"

fun chosen :: "pc \<Rightarrow> bool" where
  "chosen L156 = True" | "chosen L159 = True" | "chosen L160 = True" | "chosen L161 = True"
| "chosen L162 = True" | "chosen L164 = True" | "chosen L166 = True" | "chosen L167 = True"
| "chosen L169 = True" | "chosen L171 = True" | "chosen _ = False"

text \<open>
  The value of \<open>p->fop\<close> when the thread that copied the branch's table \<open>h\<close> is
  at a line after the copy.
\<close>

fun fop_at :: "pc \<Rightarrow> file_operations \<Rightarrow> file_operations option" where
  "fop_at L162 h = Some h"
| "fop_at L164 h =
     Some (if fo_aio_read h \<noteq> None then h\<lparr>fo_aio_read := Some Fn_aufs_aio_read_sp\<rparr> else h)"
| "fop_at L166 h =
     Some (let f = (if fo_aio_read h \<noteq> None then h\<lparr>fo_aio_read := Some Fn_aufs_aio_read_sp\<rparr> else h)
           in if fo_aio_write f \<noteq> None then f\<lparr>fo_aio_write := Some Fn_aufs_aio_write_sp\<rparr> else f)"
| "fop_at L167 h = Some (au_sp_subst h)"
| "fop_at _ h = None"

text \<open>\<open>*h_file->f_op\<close>, when both pointers are not NULL.\<close>

definition hfop :: "h_file option \<Rightarrow> file_operations option" where
  "hfop x = (case x of None \<Rightarrow> None | Some hf \<Rightarrow> hf_f_op hf)"

text \<open>
  What holds of every thread \<open>u\<close> in every state that the threads can reach,
  whatever the schedule: its file is its own; it holds the locks of the
  sections it is in; while the first flag is clear nobody is past the first
  block; it writes a slot only while the slot's flag is clear; its \<open>i\<close> is the
  slot of its file's class; the flag is set when it unlocks; after the copy the
  slot holds the branch's table as far as the substitution has got; the locks
  are initialised before the first flag is set.
\<close>

definition tinv :: "(nat \<Rightarrow> fmode_t) \<Rightarrow> (nat \<Rightarrow> h_file option) \<Rightarrow> sys \<Rightarrow> nat \<Rightarrow> bool" where
  "tinv M H g u =
     (t_f_mode (threads g u) = M u \<and> t_h_file (threads g u) = H u
      \<and> (holds_static (pc (threads g u)) \<longrightarrow> sspin g = Spin_locked u)
      \<and> (holds_slot (pc (threads g u)) \<longrightarrow> sp_spin (tbl g (t_i (threads g u))) = Spin_locked u)
      \<and> (sp_done (tbl g AuSp_FIFO) = 0 \<longrightarrow> early (pc (threads g u)))
      \<and> (pc (threads g u) = L136 \<or> (\<exists>r. pc (threads g u) = L135 r)
            \<longrightarrow> sp_done (tbl g AuSp_FIFO) = 0)
      \<and> (writing (pc (threads g u)) \<longrightarrow> sp_done (tbl g (t_i (threads g u))) = 0)
      \<and> (chosen (pc (threads g u)) \<longrightarrow> au_sp_index (M u) = Some (t_i (threads g u)))
      \<and> (pc (threads g u) = L169 \<or> pc (threads g u) = L171
            \<longrightarrow> sp_done (tbl g (t_i (threads g u))) \<noteq> 0)
      \<and> (pc (threads g u) = Ret
            \<longrightarrow> au_sp_index (M u) = Some (t_f_op (threads g u))
                \<and> sp_done (tbl g (t_f_op (threads g u))) \<noteq> 0)
      \<and> (after_copy (pc (threads g u))
            \<longrightarrow> t_i (threads g u) \<in> set (copies g)
                \<and> (case hfop (H u) of
                       None \<Rightarrow> False
                     | Some h \<Rightarrow>
                         Some (sp_fop (tbl g (t_i (threads g u)))) = fop_at (pc (threads g u)) h))
      \<and> (\<forall>r j. pc (threads g u) = L135 r \<and> j \<notin> set r \<longrightarrow> sp_spin (tbl g j) \<noteq> Spin_uninit)
      \<and> (pc (threads g u) = L136 \<longrightarrow> (\<forall>j. sp_spin (tbl g j) \<noteq> Spin_uninit))
      \<and> pc (threads g u) \<noteq> Stopped Hang)"

text \<open>
  What holds of the shared memory: a slot is in \<open>copies\<close> at most once; a slot
  that was copied and whose flag is still clear is locked by the thread that
  copied it; a slot whose flag is set was copied, and holds the table of some
  thread's branch file with the entry points of this file in place.
\<close>

definition ginv :: "(nat \<Rightarrow> fmode_t) \<Rightarrow> (nat \<Rightarrow> h_file option) \<Rightarrow> sys \<Rightarrow> bool" where
  "ginv M H g =
     (sspin g \<noteq> Spin_uninit
      \<and> (sp_done (tbl g AuSp_FIFO) = 0 \<longrightarrow> copies g = [])
      \<and> (sp_done (tbl g AuSp_FIFO) \<noteq> 0 \<longrightarrow> (\<forall>j. sp_spin (tbl g j) \<noteq> Spin_uninit))
      \<and> distinct (copies g)
      \<and> AuSp_FIFO \<notin> set (copies g)
      \<and> sp_fop (tbl g AuSp_FIFO) = sp_fop (au_sp_fop_static AuSp_FIFO)
      \<and> (\<forall>i. i \<in> set (copies g) \<and> sp_done (tbl g i) = 0 \<longrightarrow>
             (case sp_spin (tbl g i) of
                Spin_locked t \<Rightarrow> after_copy (pc (threads g t)) \<and> t_i (threads g t) = i
              | _ \<Rightarrow> False))
      \<and> (\<forall>i. i \<noteq> AuSp_FIFO \<and> sp_done (tbl g i) \<noteq> 0 \<longrightarrow>
             i \<in> set (copies g)
             \<and> (\<exists>t h. hfop (H t) = Some h \<and> au_sp_index (M t) = Some i
                      \<and> sp_fop (tbl g i) = au_sp_subst h)))"

definition inv :: "(nat \<Rightarrow> fmode_t) \<Rightarrow> (nat \<Rightarrow> h_file option) \<Rightarrow> sys \<Rightarrow> bool" where
  "inv M H g = ((\<forall>u. tinv M H g u) \<and> ginv M H g)"

text \<open>
  Two threads that open a pipe for reading and move in turns; a third thread
  (number 2) arrives later.
\<close>

definition ex_sched :: "nat list" where
  "ex_sched = concat (replicate 40 [0, 1])"

definition ex_modes :: "nat \<Rightarrow> fmode_t" where
  "ex_modes t = FMODE_READ"

definition ex_h_files :: "nat \<Rightarrow> h_file option" where
  "ex_h_files t = Some (ex_h_file 0)"

subsection \<open>One thread alone\<close>

text \<open>
  Notions to compare the thread program with the function \<open>au_init_fop_sp\<close>
  above. Lines 141 to 172 as a function of the state after line 139:
\<close>

definition init_fop_sp_slot :: "state \<Rightarrow> fatal + state" where
  "init_fop_sp_slot s =
     (case au_sp_index (f_mode (filp s)) of
        None \<Rightarrow> Inl BUG
      | Some i \<Rightarrow>
          let p = au_sp_fop s i
          in (case (if sp_done p = 0
                    then (let h_file = fi_hfile (filp s) (fi_bstart (filp s))
                          in if sp_spin p \<noteq> Spin_unlocked then Inl Hang
                             else (case h_file of
                                     None \<Rightarrow> Inl Oops
                                   | Some hf \<Rightarrow>
                                       (case hf_f_op hf of
                                          None \<Rightarrow> Inl Oops
                                        | Some h_fop \<Rightarrow>
                                            Inr (s\<lparr>au_sp_fop := (au_sp_fop s)
                                                   (i := p\<lparr>sp_fop := au_sp_subst h_fop,
                                                           sp_done := 1\<rparr>)\<rparr>))))
                    else Inr s) of
                Inl x \<Rightarrow> Inl x
              | Inr s \<Rightarrow> Inr (s\<lparr>filp := (filp s)\<lparr>f_op := i\<rparr>\<rparr>)))"

text \<open>
  A thread is at the entry (at the \<open>switch\<close>) of \<open>au_init_fop_sp\<close> with the
  file and the shared table of the state \<open>s\<close>; a system agrees with a result
  of the function. \<open>spins_static\<close> and \<open>spins_slot\<close> describe a thread that waits
  for a lock nobody releases.
\<close>

definition enters :: "sys \<Rightarrow> nat \<Rightarrow> state \<Rightarrow> bool" where
  "enters g t s =
     (pc (threads g t) = L126 \<and> t_f_mode (threads g t) = f_mode (filp s)
      \<and> t_h_file (threads g t) = fi_hfile (filp s) (fi_bstart (filp s))
      \<and> tbl g = au_sp_fop s \<and> sspin g = static_spin s)"

definition at_switch :: "sys \<Rightarrow> nat \<Rightarrow> state \<Rightarrow> bool" where
  "at_switch g t s =
     (pc (threads g t) = L141 \<and> t_f_mode (threads g t) = f_mode (filp s)
      \<and> t_h_file (threads g t) = fi_hfile (filp s) (fi_bstart (filp s))
      \<and> tbl g = au_sp_fop s \<and> sspin g = static_spin s)"

definition agrees :: "sys \<Rightarrow> nat \<Rightarrow> fatal + state \<Rightarrow> bool" where
  "agrees g t r =
     (case r of
        Inr s' \<Rightarrow> pc (threads g t) = Ret \<and> t_f_op (threads g t) = f_op (filp s')
                  \<and> tbl g = au_sp_fop s' \<and> sspin g = static_spin s'
      | Inl Hang \<Rightarrow> True
      | Inl x \<Rightarrow> pc (threads g t) = Stopped x)"

definition spins_static :: "nat \<Rightarrow> sys \<Rightarrow> bool" where
  "spins_static t g =
     (sp_done (tbl g AuSp_FIFO) = 0 \<and> sspin g \<noteq> Spin_unlocked
      \<and> (pc (threads g t) = L126 \<or> pc (threads g t) = L130 \<or> pc (threads g t) = Stopped Hang))"

definition spins_slot :: "nat \<Rightarrow> au_sp \<Rightarrow> sys \<Rightarrow> bool" where
  "spins_slot t i g =
     (sp_done (tbl g AuSp_FIFO) \<noteq> 0 \<and> au_sp_index (t_f_mode (threads g t)) = Some i
      \<and> sp_done (tbl g i) = 0 \<and> sp_spin (tbl g i) \<noteq> Spin_unlocked
      \<and> (pc (threads g t) = L126 \<or> pc (threads g t) = L141
          \<or> (t_i (threads g t) = i
              \<and> (pc (threads g t) = L156 \<or> pc (threads g t) = L159
                  \<or> pc (threads g t) = Stopped Hang))))"

section \<open>Properties\<close>

subsection \<open>The scan for a writable branch\<close>

lemma au_sbr_range: "au_sbr brs i = Some br \<Longrightarrow> 0 \<le> i \<and> i < int (length brs)"
  by (auto simp: au_sbr_def split: if_splits)

lemma au_scan_none:
  "0 \<le> bindex \<Longrightarrow> bend \<le> int (length brs) \<Longrightarrow>
   \<forall>j br. bindex \<le> j \<and> j < bend \<and> au_sbr brs j = Some br \<longrightarrow> au_br_rdonly br \<Longrightarrow>
   au_scan brs bindex bend = Inr (- 1)"
proof (induction brs bindex bend rule: au_scan.induct)
  case (1 brs bindex bend)
  show ?case
  proof (cases "bindex < bend")
    case False
    then show ?thesis by (simp add: au_scan.simps)
  next
    case True
    with "1.prems" obtain br where br: "au_sbr brs bindex = Some br"
      by (auto simp: au_sbr_def)
    with "1.prems" True have rd: "au_br_rdonly br" by auto
    have "\<forall>j br. bindex + 1 \<le> j \<and> j < bend \<and> au_sbr brs j = Some br \<longrightarrow> au_br_rdonly br"
    proof (intro allI impI)
      fix j br'
      assume "bindex + 1 \<le> j \<and> j < bend \<and> au_sbr brs j = Some br'"
      then have "bindex \<le> j \<and> j < bend \<and> au_sbr brs j = Some br'" by simp
      with "1.prems"(3) show "au_br_rdonly br'" by blast
    qed
    with "1.IH" [OF True br] rd "1.prems"(1,2)
    have "au_scan brs (bindex + 1) bend = Inr (- 1)" by simp
    with True br rd show ?thesis by (subst au_scan.simps) simp
  qed
qed


lemma au_scan_no_bug: "au_scan brs i bend \<noteq> Inl BUG"
proof (induction brs i bend rule: au_scan.induct)
  case (1 brs bindex bend)
  show ?case
    using 1 by (subst au_scan.simps) (auto split: option.splits)
qed

subsection \<open>What the parts of the open leave alone\<close>

lemma filp_emit: "filp (emit es s) = filp s"
  by (simp add: emit_def)

lemma au_init_fop_sp_frame:
  "au_init_fop_sp s = Inr s' \<Longrightarrow>
     dent s' = dent s \<and> ancestors s' = ancestors s \<and> sb s' = sb s \<and> trace s' = trace s
     \<and> fi_bstart (filp s') = fi_bstart (filp s) \<and> fi_hfile (filp s') = fi_hfile (filp s)
     \<and> f_mode (filp s') = f_mode (filp s)"
  by (auto simp: au_init_fop_sp_def Let_def split: if_splits option.splits sum.splits)

lemma au_cpup_sp_frame:
  "filp (snd (au_cpup_sp e b s)) = filp s \<and> sb (snd (au_cpup_sp e b s)) = sb s
   \<and> au_sp_fop (snd (au_cpup_sp e b s)) = au_sp_fop s
   \<and> static_spin (snd (au_cpup_sp e b s)) = static_spin s"
  by (simp add: au_cpup_sp_def au_cpup_dirs_def au_pin_def au_unpin_def
      au_sio_cpup_simple_def emit_def Let_def split_def)

lemma au_cpup_sp_err:
  "fst (au_cpup_sp e b s) =
     (if \<not> di_hdentry (dget_parent s) b \<and> ret_cpup_dirs e \<noteq> 0 then ret_cpup_dirs e
      else if ret_pin e \<noteq> 0 then ret_pin e else ret_cpup_simple e)"
  by (simp add: au_cpup_sp_def au_cpup_dirs_def au_pin_def au_unpin_def
      au_sio_cpup_simple_def emit_def Let_def split_def)

lemma au_cpup_sp_dent:
  "dent (snd (au_cpup_sp e b s)) =
     (if fst (au_cpup_sp e b s) = 0
      then (dent s)\<lparr>di_bstart := b, di_hdentry := (di_hdentry (dent s))(b := True)\<rparr>
      else dent s)"
  by (simp add: au_cpup_sp_def au_cpup_dirs_def au_pin_def au_unpin_def
      au_sio_cpup_simple_def emit_def Let_def split_def)

lemma au_cpup_sp_trace:
  "trace (snd (au_cpup_sp e bcpup s)) = trace s @
     [Dget_parent, Di_write_lock_parent]
     @ (if di_hdentry (dget_parent s) bcpup then [] else [Au_cpup_dirs bcpup])
     @ (if \<not> di_hdentry (dget_parent s) bcpup \<and> ret_cpup_dirs e \<noteq> 0 then []
        else Au_pin bcpup # (if ret_pin e = 0 then [Au_sio_cpup_simple bcpup, Au_unpin] else []))
     @ [Di_write_unlock, Dput]"
  by (simp add: au_cpup_sp_def au_cpup_dirs_def au_pin_def au_unpin_def
      au_sio_cpup_simple_def emit_def Let_def split_def)

lemma di_write_lock_child_frame:
  "dent (di_write_lock_child e s) = fst (relock e (dent s, ancestors s))
   \<and> ancestors (di_write_lock_child e s) = snd (relock e (dent s, ancestors s))
   \<and> filp (di_write_lock_child e s) = filp s \<and> sb (di_write_lock_child e s) = sb s
   \<and> trace (di_write_lock_child e s) = trace s @ [Di_write_lock_child]"
  by (simp add: di_write_lock_child_def emit_def split_def Let_def)

lemma open_sp_rest_result:
  assumes "open_sp_rest e s3 = Inr (err', s')"
  shows "dent s' = dent s3 \<and> sb s' = sb s3
     \<and> (err' = 0 \<longrightarrow> fi_bstart (filp s') = di_bstart (dent s3)
          \<and> fi_hfile (filp s') (di_bstart (dent s3))
              = Some ((new_h_file e)\<lparr>hf_bindex := di_bstart (dent s3)\<rparr>))
     \<and> (\<exists>es. trace s' = trace s3 @ Au_do_open_nondir # es
            \<and> (\<forall>x. Au_sio_cpup_simple x \<notin> set es)
            \<and> (\<forall>x. Au_cpup_dirs x \<notin> set es) \<and> (\<forall>x. Au_pin x \<notin> set es))"
  using assms unfolding open_sp_rest_def
  by (auto simp: au_do_open_nondir_def au_finfo_fin_def emit_def Let_def
      split: if_splits option.splits sum.splits dest!: au_init_fop_sp_frame)

subsection \<open>The two parts of the open\<close>

lemma au_do_open_sp_split:
  "au_do_open_sp e s =
     (case au_sbr (sb s) (di_bstart (dent s)) of
        None \<Rightarrow> Inl Oops
      | Some br \<Rightarrow>
          if au_br_rdonly br
          then (case au_scan (sb s) 0 (di_bstart (dent s)) of
                  Inl x \<Rightarrow> Inl x
                | Inr bcpup \<Rightarrow>
                    if bcpup \<ge> 0
                    then (let s1 = di_write_lock_child e (emit [Di_read_unlock] s)
                          in if bcpup < di_bstart (dent s1)
                             then (if fst (au_cpup_sp e bcpup s1) \<noteq> 0
                                   then Inr (fst (au_cpup_sp e bcpup s1),
                                             emit [Di_downgrade_lock] (snd (au_cpup_sp e bcpup s1)))
                                   else open_sp_rest e
                                          (emit [Di_downgrade_lock] (snd (au_cpup_sp e bcpup s1))))
                             else open_sp_rest e (emit [Di_downgrade_lock] s1))
                    else Inr (- EROFS, s))
          else open_sp_rest e s)"
  by (simp add: au_do_open_sp_def open_sp_rest_def Let_def split_def EROFS_def
      split: option.splits sum.splits)

lemma au_do_open_sp_writable:
  "au_sbr (sb s) (di_bstart (dent s)) = Some br \<Longrightarrow> \<not> au_br_rdonly br \<Longrightarrow>
   au_do_open_sp e s = open_sp_rest e s"
  by (simp add: au_do_open_sp_split)

lemma au_do_open_sp_copyup:
  assumes "au_sbr (sb s) (di_bstart (dent s)) = Some br" and "au_br_rdonly br"
    and "au_scan (sb s) 0 (di_bstart (dent s)) = Inr b" and "0 \<le> b"
    and "s1 = di_write_lock_child e (emit [Di_read_unlock] s)"
  shows "au_do_open_sp e s =
     (if b < di_bstart (dent s1)
      then (if fst (au_cpup_sp e b s1) \<noteq> 0
            then Inr (fst (au_cpup_sp e b s1), emit [Di_downgrade_lock] (snd (au_cpup_sp e b s1)))
            else open_sp_rest e (emit [Di_downgrade_lock] (snd (au_cpup_sp e b s1))))
      else open_sp_rest e (emit [Di_downgrade_lock] s1))"
  using assms by (simp add: au_do_open_sp_split Let_def)

lemma au_do_open_sp_writable_events:
  assumes "au_sbr (sb s) (di_bstart (dent s)) = Some br" and "\<not> au_br_rdonly br"
    and "au_do_open_sp e s = Inr (err, s')"
  shows "Au_sio_cpup_simple x \<notin> set (events_since s s')"
proof -
  from assms have "open_sp_rest e s = Inr (err, s')"
    by (simp add: au_do_open_sp_writable)
  from open_sp_rest_result [OF this] show ?thesis
    by (auto simp: events_since_def)
qed

subsection \<open>The access mode of the file\<close>

lemma and3_cases: "(m::32 word) AND 3 = 0 \<or> m AND 3 = 1 \<or> m AND 3 = 2 \<or> m AND 3 = 3"
proof -
  have "m AND 3 \<le> 3" by (rule word_and_le1)
  then have "unat (m AND 3) \<le> 3" by (simp add: word_le_nat_alt)
  then have "unat (m AND 3) = 0 \<or> unat (m AND 3) = 1 \<or> unat (m AND 3) = 2 \<or> unat (m AND 3) = 3"
    by arith
  then show ?thesis by (auto simp: word_unat_eq_iff)
qed

lemma and_1_2_of_3:
  "(m::32 word) AND 1 = (m AND 3) AND 1" "(m::32 word) AND 2 = (m AND 3) AND 2"
  by (simp_all add: and.assoc)

lemma au_sp_index_flags:
  "au_sp_index m =
     (if m AND FMODE_READ \<noteq> 0 \<and> m AND FMODE_WRITE = 0 then Some AuSp_FIFO_R
      else if m AND FMODE_READ = 0 \<and> m AND FMODE_WRITE \<noteq> 0 then Some AuSp_FIFO_W
      else if m AND FMODE_READ \<noteq> 0 \<and> m AND FMODE_WRITE \<noteq> 0 then Some AuSp_FIFO_RW
      else None)"
proof -
  have "(1::32 word) OR 2 = 3" by simp
  then show ?thesis
    using and3_cases [of m]
    unfolding au_sp_index_def FMODE_READ_def FMODE_WRITE_def Let_def
    by (elim disjE) (simp_all add: and_1_2_of_3 [of m])
qed

lemma au_init_fop_sp_bug:
  "(au_init_fop_sp s = Inl BUG) =
     (au_sp_index (f_mode (filp s)) = None
      \<and> (sp_done (au_sp_fop s AuSp_FIFO) \<noteq> 0 \<or> static_spin s = Spin_unlocked))"
  by (auto simp: au_init_fop_sp_def Let_def split: option.splits sum.splits if_splits)

lemma au_init_fop_sp_Inr:
  "au_init_fop_sp s = Inr s' \<Longrightarrow> au_sp_index (f_mode (filp s)) = Some (f_op (filp s'))"
  by (auto simp: au_init_fop_sp_def Let_def split: option.splits sum.splits if_splits)

lemma open_sp_rest_bug:
  "open_sp_rest e s = Inl BUG \<Longrightarrow> au_sp_index (f_mode (filp s)) = None"
  by (auto simp: open_sp_rest_def au_do_open_nondir_def emit_def Let_def au_init_fop_sp_bug
      split: option.splits sum.splits if_splits)

lemma au_do_open_sp_bug:
  assumes "au_do_open_sp e s = Inl BUG"
  shows "au_sp_index (f_mode (filp s)) = None"
  using assms au_scan_no_bug [of "sb s" 0 "di_bstart (dent s)"]
  unfolding au_do_open_sp_split Let_def
  by (auto simp: au_cpup_sp_frame filp_emit di_write_lock_child_frame
      split: option.splits sum.splits if_splits dest!: open_sp_rest_bug)

subsection \<open>The concrete mount, evaluated\<close>

lemma ex_scan: "au_scan (sb (ex_closed True)) 0 (di_bstart (dent (ex_closed True))) = Inr 0"
  by (subst au_scan.simps) (simp add: ex_closed_def au_sbr_def au_br_rdonly_def)

lemma ex_start:
  "au_sbr (sb (ex_closed w)) (di_bstart (dent (ex_closed w))) = Some \<lparr>br_writable = False\<rparr>"
  "au_br_rdonly \<lparr>br_writable = False\<rparr>"
  by (simp_all add: ex_closed_def au_sbr_def au_br_rdonly_def)

lemma ex_top:
  "0 \<le> (0::int) \<and> 0 < di_bstart (dent (ex_closed True))
   \<and> au_sbr (sb (ex_closed True)) 0 = Some \<lparr>br_writable = True\<rparr>
   \<and> \<not> au_br_rdonly \<lparr>br_writable = True\<rparr>
   \<and> (\<forall>j br'. 0 \<le> j \<and> j < 0 \<and> au_sbr (sb (ex_closed True)) j = Some br' \<longrightarrow> au_br_rdonly br')"
  by (simp add: ex_closed_def au_sbr_def au_br_rdonly_def)

lemma ex_all_rdonly:
  "\<forall>j br'. 0 \<le> j \<and> j < di_bstart (dent (ex_closed False))
      \<and> au_sbr (sb (ex_closed False)) j = Some br' \<longrightarrow> au_br_rdonly br'"
proof (intro allI impI)
  fix j :: int and br'
  assume a: "0 \<le> j \<and> j < di_bstart (dent (ex_closed False))
      \<and> au_sbr (sb (ex_closed False)) j = Some br'"
  then have "j = 0" by (simp add: ex_closed_def)
  with a show "au_br_rdonly br'" by (auto simp: ex_closed_def au_sbr_def au_br_rdonly_def)
qed

lemma ex_relocked:
  "di_write_lock_child ex_env (emit [Di_read_unlock] (ex_closed w))
     = (ex_closed w)\<lparr>trace := [Di_read_unlock, Di_write_lock_child]\<rparr>"
  "di_write_lock_child ex_env_pin_fails (emit [Di_read_unlock] (ex_closed w))
     = (ex_closed w)\<lparr>trace := [Di_read_unlock, Di_write_lock_child]\<rparr>"
  by (simp_all add: di_write_lock_child_def emit_def ex_env_def ex_env_pin_fails_def ex_closed_def)

lemmas ex_eval = ret_and_trace_def ex_closed_def ex_env_def au_cpup_sp_def dget_parent_def
  au_pin_def au_unpin_def au_sio_cpup_simple_def emit_def open_sp_rest_def
  au_do_open_nondir_def ex_h_file_def au_init_fop_sp_def au_sp_fop_static_def
  spin_lock_init_all_def au_sp_index_def FMODE_READ_def FMODE_WRITE_def ex_fifo_fops_def

lemma ex_open_trace:
  "ret_and_trace (au_do_open_sp ex_env (ex_closed True)) =
     Inr (0, [Di_read_unlock, Di_write_lock_child, Dget_parent, Di_write_lock_parent,
              Au_pin 0, Au_sio_cpup_simple 0, Au_unpin, Di_write_unlock, Dput,
              Di_downgrade_lock, Au_do_open_nondir, Di_read_unlock, Fi_write_unlock,
              Si_read_unlock, Call_open (H_fn 0), Si_noflush_read_lock, Fi_write_lock,
              Di_read_lock_child])"
  unfolding au_do_open_sp_copyup [OF ex_start ex_scan order_refl refl] ex_relocked
  by (simp add: ex_eval)

lemma ex_open_twice_trace:
  "ret_and_trace (open_twice ex_env (ex_closed True)) =
     Inr (0, [Di_read_unlock, Di_write_lock_child, Dget_parent, Di_write_lock_parent,
              Au_pin 0, Au_sio_cpup_simple 0, Au_unpin, Di_write_unlock, Dput,
              Di_downgrade_lock, Au_do_open_nondir, Di_read_unlock, Fi_write_unlock,
              Si_read_unlock, Call_open (H_fn 0), Si_noflush_read_lock, Fi_write_lock,
              Di_read_lock_child,
              Au_do_open_nondir, Di_read_unlock, Fi_write_unlock,
              Si_read_unlock, Call_open (H_fn 0), Si_noflush_read_lock, Fi_write_lock,
              Di_read_lock_child])"
  unfolding open_twice_def au_do_open_sp_copyup [OF ex_start ex_scan order_refl refl] ex_relocked
  by (simp add: ex_eval au_do_open_sp_def au_sbr_def au_br_rdonly_def)






lemmas S_IF_defs = S_IFMT_def S_IFSOCK_def S_IFLNK_def S_IFREG_def S_IFBLK_def S_IFDIR_def
  S_IFCHR_def S_IFIFO_def

subsection \<open>Claims about open\<close>




text \<open>
  Claim C3. When the start branch is read-only and no branch below the start
  index is writable, the open returns \<open>-EROFS\<close> and the state it returns is the
  state it was given: the array of branch files is as it was (unset stays
  unset) and nothing was called, neither \<open>au_do_open_nondir\<close> nor the pipe's
  own \<open>open\<close>.
\<close>

theorem au_do_open_sp_erofs_untouched:
  assumes "au_sbr (sb s) (di_bstart (dent s)) = Some br"
    and "au_br_rdonly br"
    and "\<forall>j br'. 0 \<le> j \<and> j < di_bstart (dent s) \<and> au_sbr (sb s) j = Some br' \<longrightarrow> au_br_rdonly br'"
  shows "\<exists>s'. au_do_open_sp e s = Inr (- EROFS, s') \<and> s' = s
            \<and> fi_hfile (filp s') = fi_hfile (filp s) \<and> events_since s s' = []"
proof -
  have "au_scan (sb s) 0 (di_bstart (dent s)) = Inr (- 1)"
    using au_scan_none [of 0 "di_bstart (dent s)" "sb s"] assms au_sbr_range [OF assms(1)]
    by auto
  then show ?thesis using assms(1,2)
    by (simp add: au_do_open_sp_split events_since_def)
qed

theorem au_do_open_sp_erofs_untouched_witness:
  "au_br_rdonly \<lparr>br_writable = False\<rparr>
   \<and> au_do_open_sp ex_env (ex_closed False) = Inr (- 30, ex_closed False)
   \<and> fi_hfile (filp (ex_closed False)) = Map.empty"
  using au_do_open_sp_erofs_untouched [OF ex_start ex_all_rdonly, of ex_env] ex_start(2)
  by (auto simp: EROFS_def ex_closed_def)

text \<open>
  Claim C4. When a step of the copy-up fails (\<open>au_cpup_dirs\<close>, \<open>au_pin\<close> or
  \<open>au_sio_cpup_simple\<close>, in this order), the open returns the error of that
  step; the dentry is the one found when the lock was taken again, with its
  start branch not moved, the file and the branches are unchanged, and neither
  \<open>au_do_open_nondir\<close> nor the pipe's \<open>open\<close> was called. If no other thread
  touched the dentry, it still starts at the original read-only branch and a
  second open scans to the same target.
\<close>

theorem au_do_open_sp_copyup_failure:
  assumes "au_sbr (sb s) (di_bstart (dent s)) = Some br" and "au_br_rdonly br"
    and "au_scan (sb s) 0 (di_bstart (dent s)) = Inr bcpup" and "0 \<le> bcpup"
    and "s1 = di_write_lock_child e (emit [Di_read_unlock] s)"
    and "bcpup < di_bstart (dent s1)"
    and "err = (if \<not> di_hdentry (dget_parent s1) bcpup \<and> ret_cpup_dirs e \<noteq> 0
                then ret_cpup_dirs e
                else if ret_pin e \<noteq> 0 then ret_pin e else ret_cpup_simple e)"
    and "err \<noteq> 0"
  shows "\<exists>s'. au_do_open_sp e s = Inr (err, s')
            \<and> dent s' = dent s1 \<and> filp s' = filp s \<and> sb s' = sb s
            \<and> Au_do_open_nondir \<notin> set (events_since s s')
            \<and> (\<forall>f. Call_open f \<notin> set (events_since s s'))
            \<and> (relock e (dent s, ancestors s) = (dent s, ancestors s) \<longrightarrow>
                 di_bstart (dent s') = di_bstart (dent s)
                 \<and> au_sbr (sb s') (di_bstart (dent s')) = Some br
                 \<and> au_scan (sb s') 0 (di_bstart (dent s')) = Inr bcpup)"
proof -
  define s2 where "s2 = snd (au_cpup_sp e bcpup s1)"
  have f: "fst (au_cpup_sp e bcpup s1) = err"
    using assms(7) by (simp only: au_cpup_sp_err)
  have r: "au_do_open_sp e s = Inr (err, emit [Di_downgrade_lock] s2)"
    using au_do_open_sp_copyup [OF assms(1-5)] assms(6,8) f by (simp add: s2_def)
  have d1: "dent s1 = fst (relock e (dent s, ancestors s))"
    and t1: "trace s1 = trace s @ [Di_read_unlock, Di_write_lock_child]"
    and f1: "filp s1 = filp s" and b1: "sb s1 = sb s"
    by (simp_all add: assms(5) di_write_lock_child_frame emit_def)
  have d2: "dent s2 = dent s1" using f assms(8) by (simp add: s2_def au_cpup_sp_dent)
  have f2: "filp s2 = filp s" "sb s2 = sb s"
    by (simp_all add: s2_def au_cpup_sp_frame f1 b1)
  have t2: "\<exists>es. trace s2 = trace s @ es \<and> Au_do_open_nondir \<notin> set es
              \<and> (\<forall>f. Call_open f \<notin> set es)"
    by (simp add: s2_def au_cpup_sp_trace t1)
  show ?thesis
    using r d2 f2 t2 d1 assms(1,3)
    by (auto simp: emit_def events_since_def)
qed

theorem au_do_open_sp_copyup_failure_witness:
  "ret_pin ex_env_pin_fails = - 13
   \<and> ret_and_bstart (au_do_open_sp ex_env_pin_fails (ex_closed True)) = Inr (- 13, 1, - 1)"
proof -
  have lt: "0 < di_bstart (dent ((ex_closed True)\<lparr>trace := [Di_read_unlock, Di_write_lock_child]\<rparr>))"
    by (simp add: ex_closed_def)
  have err: "- 13 =
      (if \<not> di_hdentry (dget_parent ((ex_closed True)\<lparr>trace := [Di_read_unlock, Di_write_lock_child]\<rparr>)) 0
            \<and> ret_cpup_dirs ex_env_pin_fails \<noteq> 0 then ret_cpup_dirs ex_env_pin_fails
       else if ret_pin ex_env_pin_fails \<noteq> 0 then ret_pin ex_env_pin_fails
       else ret_cpup_simple ex_env_pin_fails)"
    by (simp add: ex_env_pin_fails_def ex_env_def)
  from au_do_open_sp_copyup_failure
         [OF ex_start ex_scan order_refl ex_relocked(2) [symmetric] lt err]
  obtain s' where "au_do_open_sp ex_env_pin_fails (ex_closed True) = Inr (- 13, s')"
    and "dent s' = dent ((ex_closed True)\<lparr>trace := [Di_read_unlock, Di_write_lock_child]\<rparr>)"
    and "filp s' = filp (ex_closed True)"
    by auto
  then show ?thesis
    by (simp add: ret_and_bstart_def ex_closed_def ex_env_pin_fails_def ex_env_def)
qed

text \<open>
  Claim C5. In the open, after the child lock is taken for writing, the copy-up
  is called only while the target is still strictly below the dentry's start
  branch: if another thread has brought the dentry to the target (or above) in
  the meantime, the open calls none of \<open>au_cpup_dirs\<close>, \<open>au_pin\<close> and
  \<open>au_sio_cpup_simple\<close>; otherwise it attempts the copy-up. One open creates the
  entry at most once, and after a successful open any later open of the same
  dentry creates nothing, so one entry is created in all.
\<close>

theorem au_do_open_sp_copyup_once:
  assumes "au_sbr (sb s) (di_bstart (dent s)) = Some br" and "au_br_rdonly br"
    and "au_scan (sb s) 0 (di_bstart (dent s)) = Inr b" and "0 \<le> b"
    and "au_sbr (sb s) b = Some bb" and "\<not> au_br_rdonly bb"
    and "s1 = di_write_lock_child e (emit [Di_read_unlock] s)"
    and "au_do_open_sp e s = Inr (err, s')"
  shows "(di_bstart (dent s1) \<le> b \<longrightarrow>
            (\<forall>x. Au_sio_cpup_simple x \<notin> set (events_since s s')
                \<and> Au_cpup_dirs x \<notin> set (events_since s s')
                \<and> Au_pin x \<notin> set (events_since s s')))
       \<and> (b < di_bstart (dent s1) \<longrightarrow>
            Au_pin b \<in> set (events_since s s') \<or> Au_cpup_dirs b \<in> set (events_since s s'))
       \<and> count_list (events_since s s') (Au_sio_cpup_simple b) \<le> 1
       \<and> (err = 0 \<and> b \<le> di_bstart (dent s1) \<longrightarrow>
            (\<forall>e2 err2 s'' x. au_do_open_sp e2 s' = Inr (err2, s'')
                \<longrightarrow> Au_sio_cpup_simple x \<notin> set (events_since s' s'')))"
proof -
  have t1: "trace s1 = trace s @ [Di_read_unlock, Di_write_lock_child]"
    and b1: "sb s1 = sb s"
    by (simp_all add: assms(7) di_write_lock_child_frame emit_def)
  note unf = au_do_open_sp_copyup [OF assms(1-4) assms(7)]
  show ?thesis
  proof (cases "b < di_bstart (dent s1)")
    case False
    with unf assms(8) have r: "open_sp_rest e (emit [Di_downgrade_lock] s1) = Inr (err, s')"
      by simp
    from open_sp_rest_result [OF r] obtain es where
      es: "trace s' = trace s @ [Di_read_unlock, Di_write_lock_child, Di_downgrade_lock,
                                Au_do_open_nondir] @ es"
        "\<forall>x. Au_sio_cpup_simple x \<notin> set es" "\<forall>x. Au_cpup_dirs x \<notin> set es"
        "\<forall>x. Au_pin x \<notin> set es"
      and d: "dent s' = dent s1" "sb s' = sb s"
      by (auto simp: emit_def t1 b1)
    have ev: "events_since s s' = [Di_read_unlock, Di_write_lock_child, Di_downgrade_lock,
                                  Au_do_open_nondir] @ es"
      by (simp add: events_since_def es(1))
    have c: "count_list (events_since s s') (Au_sio_cpup_simple b) = 0"
      using es(2) by (simp add: ev count_list_0_iff)
    have two: "err = 0 \<and> b \<le> di_bstart (dent s1) \<longrightarrow>
            (\<forall>e2 err2 s'' x. au_do_open_sp e2 s' = Inr (err2, s'')
                \<longrightarrow> Au_sio_cpup_simple x \<notin> set (events_since s' s''))"
    proof (intro impI allI)
      fix e2 err2 s'' x
      assume "err = 0 \<and> b \<le> di_bstart (dent s1)" and o: "au_do_open_sp e2 s' = Inr (err2, s'')"
      with False d have "au_sbr (sb s') (di_bstart (dent s')) = Some bb"
        using assms(5) by simp
      from au_do_open_sp_writable_events [OF this assms(6) o]
      show "Au_sio_cpup_simple x \<notin> set (events_since s' s'')" .
    qed
    from False c two es(2-4) show ?thesis by (simp add: ev)
  next
    case True
    define s2 where "s2 = snd (au_cpup_sp e b s1)"
    define es2 where "es2 =
       [Di_read_unlock, Di_write_lock_child, Dget_parent, Di_write_lock_parent]
       @ (if di_hdentry (dget_parent s1) b then [] else [Au_cpup_dirs b])
       @ (if \<not> di_hdentry (dget_parent s1) b \<and> ret_cpup_dirs e \<noteq> 0 then []
          else Au_pin b # (if ret_pin e = 0 then [Au_sio_cpup_simple b, Au_unpin] else []))
       @ [Di_write_unlock, Dput]"
    have t2: "trace s2 = trace s @ es2"
      by (simp add: s2_def es2_def au_cpup_sp_trace t1)
    have c2: "count_list es2 (Au_sio_cpup_simple b) \<le> 1"
      and p2: "Au_pin b \<in> set es2 \<or> Au_cpup_dirs b \<in> set es2"
      by (auto simp: es2_def)
    have sb2: "sb s2 = sb s" by (simp add: s2_def au_cpup_sp_frame b1)
    show ?thesis
    proof (cases "fst (au_cpup_sp e b s1) = 0")
      case False
      with unf True assms(8) have "err \<noteq> 0" and "s' = emit [Di_downgrade_lock] s2"
        by (simp_all add: s2_def)
      with t2 have "events_since s s' = es2 @ [Di_downgrade_lock]"
        by (simp add: events_since_def emit_def)
      with True c2 p2 \<open>err \<noteq> 0\<close> show ?thesis by auto
    next
      case ok: True
      with unf True assms(8)
      have r: "open_sp_rest e (emit [Di_downgrade_lock] s2) = Inr (err, s')"
        by (simp add: s2_def)
      from open_sp_rest_result [OF r] obtain es where
        es: "trace s' = trace s @ es2 @ Di_downgrade_lock # Au_do_open_nondir # es"
        "\<forall>x. Au_sio_cpup_simple x \<notin> set es"
        and d: "dent s' = dent s2" "sb s' = sb s"
        using t2 sb2 by (auto simp: emit_def)
      have ev: "events_since s s' = es2 @ Di_downgrade_lock # Au_do_open_nondir # es"
        by (simp add: events_since_def es(1))
      have c: "count_list (events_since s s') (Au_sio_cpup_simple b) \<le> 1"
        using es(2) c2 by (simp add: ev count_list_0_iff)
      have st: "di_bstart (dent s') = b" using ok d by (simp add: s2_def au_cpup_sp_dent)
      have two: "\<forall>e2 err2 s'' x. au_do_open_sp e2 s' = Inr (err2, s'')
                \<longrightarrow> Au_sio_cpup_simple x \<notin> set (events_since s' s'')"
      proof (intro impI allI)
        fix e2 err2 s'' x
        assume o: "au_do_open_sp e2 s' = Inr (err2, s'')"
        have "au_sbr (sb s') (di_bstart (dent s')) = Some bb"
          using assms(5) st d by simp
        from au_do_open_sp_writable_events [OF this assms(6) o]
        show "Au_sio_cpup_simple x \<notin> set (events_since s' s'')" .
      qed
      from True c two p2 show ?thesis by (auto simp: ev)
    qed
  qed
qed

theorem au_do_open_sp_copyup_once_witness:
  "au_scan (sb (ex_closed True)) 0 (di_bstart (dent (ex_closed True))) = Inr 0
   \<and> ret_and_trace (open_twice ex_env (ex_closed True)) =
     Inr (0, [Di_read_unlock, Di_write_lock_child, Dget_parent, Di_write_lock_parent,
              Au_pin 0, Au_sio_cpup_simple 0, Au_unpin, Di_write_unlock, Dput,
              Di_downgrade_lock, Au_do_open_nondir, Di_read_unlock, Fi_write_unlock,
              Si_read_unlock, Call_open (H_fn 0), Si_noflush_read_lock, Fi_write_lock,
              Di_read_lock_child,
              Au_do_open_nondir, Di_read_unlock, Fi_write_unlock,
              Si_read_unlock, Call_open (H_fn 0), Si_noflush_read_lock, Fi_write_lock,
              Di_read_lock_child])"
proof -
  from ex_open_trace obtain s' where o: "au_do_open_sp ex_env (ex_closed True) = Inr (0, s')"
    by (auto simp: ret_and_trace_def split: sum.splits)
  have top: "au_sbr (sb (ex_closed True)) 0 = Some \<lparr>br_writable = True\<rparr>"
    "\<not> au_br_rdonly \<lparr>br_writable = True\<rparr>"
    using ex_top by simp_all
  have le: "0 \<le> di_bstart (dent ((ex_closed True)\<lparr>trace := [Di_read_unlock, Di_write_lock_child]\<rparr>))"
    by (simp add: ex_closed_def)
  from au_do_open_sp_copyup_once
         [OF ex_start ex_scan order_refl top ex_relocked(1) [symmetric] o] le
  have once: "\<forall>e2 err2 s'' x. au_do_open_sp e2 s' = Inr (err2, s'')
                \<longrightarrow> Au_sio_cpup_simple x \<notin> set (events_since s' s'')"
    by blast
  with ex_scan ex_open_twice_trace show ?thesis by simp
qed

text \<open>
  Claim C8. \<open>au_cpup_sp\<close> calls \<open>au_cpup_dirs\<close> exactly when the parent has no
  dentry on the target branch. When the parent is there already, the calls
  after taking the parent's lock are \<open>au_pin\<close> and, if that succeeds, the
  simple copy-up and \<open>au_unpin\<close>.
\<close>

theorem au_cpup_sp_dirs_iff_parent_absent:
  "events_since s (snd (au_cpup_sp e bcpup s)) =
     [Dget_parent, Di_write_lock_parent]
     @ (if di_hdentry (dget_parent s) bcpup then [] else [Au_cpup_dirs bcpup])
     @ (if \<not> di_hdentry (dget_parent s) bcpup \<and> ret_cpup_dirs e \<noteq> 0 then []
        else Au_pin bcpup # (if ret_pin e = 0 then [Au_sio_cpup_simple bcpup, Au_unpin] else []))
     @ [Di_write_unlock, Dput]
   \<and> (Au_cpup_dirs bcpup \<in> set (events_since s (snd (au_cpup_sp e bcpup s)))
        \<longleftrightarrow> \<not> di_hdentry (dget_parent s) bcpup)"
  by (simp add: events_since_def au_cpup_sp_trace)

theorem au_cpup_sp_dirs_iff_parent_absent_witness:
  "di_hdentry (dget_parent (ex_closed True)) 0
   \<and> events_since (ex_closed True) (snd (au_cpup_sp ex_env 0 (ex_closed True)))
     = [Dget_parent, Di_write_lock_parent, Au_pin 0, Au_sio_cpup_simple 0, Au_unpin,
        Di_write_unlock, Dput]
   \<and> \<not> di_hdentry (dget_parent (ex_opened True)) 1
   \<and> Au_cpup_dirs 1 \<in> set (events_since (ex_opened True) (snd (au_cpup_sp ex_env 1 (ex_opened True))))"
  using au_cpup_sp_dirs_iff_parent_absent [of "ex_closed True" ex_env 0]
    au_cpup_sp_dirs_iff_parent_absent [of "ex_opened True" ex_env 1]
  by (simp add: dget_parent_def ex_closed_def ex_opened_def ex_env_def)

text \<open>
  Claim C10. The \<open>switch\<close> selects the slot for read-only, write-only and
  read-write files and nothing else. For a file with \<open>FMODE_READ\<close> or
  \<open>FMODE_WRITE\<close> set, which is what the pipe's own \<open>open\<close> lets through,
  \<open>BUG()\<close> is not reached, neither in \<open>au_init_fop_sp\<close> nor in the whole open,
  and the slot installed is the one of the file's class. A file with neither
  flag never gets a slot: \<open>au_init_fop_sp\<close> stops in \<open>BUG()\<close> as soon as its first
  block is passed.
\<close>

theorem au_init_fop_sp_bug_iff_no_access_mode:
  "(f_mode (filp s) AND FMODE_READ \<noteq> 0 \<or> f_mode (filp s) AND FMODE_WRITE \<noteq> 0 \<longrightarrow>
      au_init_fop_sp s \<noteq> Inl BUG \<and> au_do_open_sp e s \<noteq> Inl BUG
      \<and> (\<forall>s'. au_init_fop_sp s = Inr s' \<longrightarrow>
            f_op (filp s') =
              (if f_mode (filp s) AND FMODE_WRITE = 0 then AuSp_FIFO_R
               else if f_mode (filp s) AND FMODE_READ = 0 then AuSp_FIFO_W
               else AuSp_FIFO_RW)))
   \<and> (f_mode (filp s) AND FMODE_READ = 0 \<and> f_mode (filp s) AND FMODE_WRITE = 0 \<longrightarrow>
        (\<forall>s'. au_init_fop_sp s \<noteq> Inr s')
        \<and> (sp_done (au_sp_fop s AuSp_FIFO) \<noteq> 0 \<or> static_spin s = Spin_unlocked
             \<longrightarrow> au_init_fop_sp s = Inl BUG))"
proof (intro conjI impI allI)
  assume a: "f_mode (filp s) AND FMODE_READ \<noteq> 0 \<or> f_mode (filp s) AND FMODE_WRITE \<noteq> 0"
  then have i: "au_sp_index (f_mode (filp s)) \<noteq> None"
    by (auto simp: au_sp_index_flags)
  then show "au_init_fop_sp s \<noteq> Inl BUG" by (simp add: au_init_fop_sp_bug)
  from i show "au_do_open_sp e s \<noteq> Inl BUG" using au_do_open_sp_bug [of e s] by auto
  fix s'
  assume "au_init_fop_sp s = Inr s'"
  from au_init_fop_sp_Inr [OF this] a
  show "f_op (filp s') =
              (if f_mode (filp s) AND FMODE_WRITE = 0 then AuSp_FIFO_R
               else if f_mode (filp s) AND FMODE_READ = 0 then AuSp_FIFO_W
               else AuSp_FIFO_RW)"
    by (auto simp: au_sp_index_flags split: if_splits)
next
  assume a: "f_mode (filp s) AND FMODE_READ = 0 \<and> f_mode (filp s) AND FMODE_WRITE = 0"
  then have i: "au_sp_index (f_mode (filp s)) = None"
    by (simp add: au_sp_index_flags)
  { fix s' show "au_init_fop_sp s \<noteq> Inr s'" using au_init_fop_sp_Inr [of s s'] i by auto }
  assume "sp_done (au_sp_fop s AuSp_FIFO) \<noteq> 0 \<or> static_spin s = Spin_unlocked"
  with i show "au_init_fop_sp s = Inl BUG" by (simp add: au_init_fop_sp_bug)
qed

theorem au_init_fop_sp_bug_iff_no_access_mode_witness:
  "f_mode (filp (ex_closed True)) AND FMODE_WRITE \<noteq> 0
   \<and> au_do_open_sp ex_env (ex_closed True) \<noteq> Inl BUG
   \<and> au_init_fop_sp ((ex_closed True)\<lparr>filp := (filp (ex_closed True))\<lparr>f_mode := 0\<rparr>\<rparr>) = Inl BUG"
proof -
  have w: "f_mode (filp (ex_closed True)) AND FMODE_WRITE \<noteq> 0"
    by (simp add: ex_closed_def FMODE_WRITE_def)
  have n: "f_mode (filp ((ex_closed True)\<lparr>filp := (filp (ex_closed True))\<lparr>f_mode := 0\<rparr>\<rparr>))
             AND FMODE_READ = 0
     \<and> f_mode (filp ((ex_closed True)\<lparr>filp := (filp (ex_closed True))\<lparr>f_mode := 0\<rparr>\<rparr>))
             AND FMODE_WRITE = 0"
    and l: "static_spin ((ex_closed True)\<lparr>filp := (filp (ex_closed True))\<lparr>f_mode := 0\<rparr>\<rparr>)
              = Spin_unlocked"
    by (simp_all add: ex_closed_def)
  from au_init_fop_sp_bug_iff_no_access_mode [of "ex_closed True" ex_env] w
  have a: "au_do_open_sp ex_env (ex_closed True) \<noteq> Inl BUG" by blast
  from au_init_fop_sp_bug_iff_no_access_mode
         [of "(ex_closed True)\<lparr>filp := (filp (ex_closed True))\<lparr>f_mode := 0\<rparr>\<rparr>" ex_env] n l
  have b: "au_init_fop_sp ((ex_closed True)\<lparr>filp := (filp (ex_closed True))\<lparr>f_mode := 0\<rparr>\<rparr>)
             = Inl BUG"
    by blast
  from w a b show ?thesis by blast
qed

subsection \<open>Claims about read, write and release\<close>

text \<open>
  Claim C2, as the code has it. A write that returns a positive count on a
  branch that is not writable does not refresh the modification time: the
  trace ends with the call of the branch's \<open>aio_write\<close>.
\<close>

theorem aufs_aio_write_sp_rdonly_branch:
  "ret_and_trace (aufs_aio_write_sp ex_env (ex_opened False))
    = Inr (5, [Si_read_lock, Fi_read_lock, Fi_read_unlock, Si_read_unlock,
               Call_aio_write (H_fn 2) (ex_h_file 0)])"
  by (simp add: ret_and_trace_def aufs_aio_write_sp_def ex_env_def ex_opened_def emit_def
      au_sbr_def au_br_writable_def ex_h_file_def ex_fifo_fops_def)

text \<open>
  Claim C2, amended. For a write as for a read, the timestamp of the branch
  file (\<open>file_update_time\<close>, \<open>file_accessed\<close>) is refreshed exactly when the call
  returned a positive count and the branch at the file's start index is
  writable; the value returned is that of the branch's own entry point.
\<close>

theorem aufs_aio_sp_timestamp_refresh:
  assumes "fi_hfile (filp s) (fi_bstart (filp s)) = Some hf"
    and "hf_f_op hf = Some ops"
    and "au_sbr (sb s) (fi_bstart (filp s)) = Some br"
  shows "(\<forall>f. fo_aio_write ops = Some f \<longrightarrow>
            aufs_aio_write_sp e s =
              Inr (ret_aio_write e,
                   emit ([Si_read_lock, Fi_read_lock, Fi_read_unlock, Si_read_unlock,
                          Call_aio_write f hf]
                         @ (if ret_aio_write e > 0 \<and> au_br_writable br
                            then [File_update_time hf] else [])) s))
       \<and> (\<forall>f. fo_aio_read ops = Some f \<longrightarrow>
            aufs_aio_read_sp e s =
              Inr (ret_aio_read e,
                   emit ([Si_read_lock, Fi_read_lock, Fi_read_unlock, Si_read_unlock,
                          Call_aio_read f hf]
                         @ (if ret_aio_read e > 0 \<and> au_br_writable br
                            then [File_accessed hf] else [])) s))"
  using assms by (simp add: aufs_aio_write_sp_def aufs_aio_read_sp_def emit_def)

theorem aufs_aio_sp_timestamp_refresh_witness:
  "ret_and_trace (aufs_aio_write_sp ex_env (ex_opened True))
    = Inr (5, [Si_read_lock, Fi_read_lock, Fi_read_unlock, Si_read_unlock,
               Call_aio_write (H_fn 2) (ex_h_file 0), File_update_time (ex_h_file 0)])
  \<and> ret_and_trace (aufs_aio_read_sp ex_env (ex_opened False))
    = Inr (5, [Si_read_lock, Fi_read_lock, Fi_read_unlock, Si_read_unlock,
               Call_aio_read (H_fn 1) (ex_h_file 0)])"
proof -
  have w: "fi_hfile (filp (ex_opened True)) (fi_bstart (filp (ex_opened True))) = Some (ex_h_file 0)"
       "fi_hfile (filp (ex_opened False)) (fi_bstart (filp (ex_opened False))) = Some (ex_h_file 0)"
    and o: "hf_f_op (ex_h_file 0) = Some ex_fifo_fops"
    and b: "au_sbr (sb (ex_opened True)) (fi_bstart (filp (ex_opened True)))
              = Some \<lparr>br_writable = True\<rparr>"
      "au_sbr (sb (ex_opened False)) (fi_bstart (filp (ex_opened False)))
              = Some \<lparr>br_writable = False\<rparr>"
    by (simp_all add: ex_opened_def ex_h_file_def au_sbr_def)
  show ?thesis
    using aufs_aio_sp_timestamp_refresh [OF w(1) o b(1), of ex_env]
      aufs_aio_sp_timestamp_refresh [OF w(2) o b(2), of ex_env]
    by (simp add: ret_and_trace_def ex_fifo_fops_def ex_env_def emit_def au_br_writable_def
        ex_opened_def)
qed

text \<open>
  Claim C7, as the code has it. The \<open>release\<close> of the branch is not called on
  the branch file: line 95 is \<open>h_file->f_op->release(inode, file)\<close>, and the
  file it passes is the file of aufs, while the branch file at the start index
  is only where the entry point is read from.
\<close>

theorem aufs_release_sp_passes_aufs_file:
  "fi_hfile (filp (ex_opened True)) (fi_bstart (filp (ex_opened True))) = Some (ex_h_file 0)
   \<and> ret_and_trace (aufs_release_sp ex_env (ex_opened True))
     = Inr (- 5, [Fi_read_lock, Fi_read_unlock,
                  Call_release (H_fn 3) (Aufs_file (filp (ex_opened True))),
                  Aufs_release_nondir])
   \<and> Aufs_file (filp (ex_opened True)) \<noteq> Branch_file (ex_h_file 0)"
  by (simp add: ret_and_trace_def aufs_release_sp_def aufs_release_nondir_def emit_def
      ex_env_def ex_opened_def ex_h_file_def ex_fifo_fops_def)

text \<open>
  Claim C7, amended. A release of an open pipe (the branch file at the file's
  start index is set and its table has a \<open>release\<close> entry point) reads that
  entry point from the branch file and calls it with the file of aufs, where
  the pipe was opened, not with the branch file; whatever it returns,
  \<open>aufs_release_nondir\<close> runs next and detaches the branch files; the value
  returned is the one the branch's \<open>release\<close> returned.
\<close>

theorem aufs_release_sp_always_tears_down:
  assumes "fi_hfile (filp s) (fi_bstart (filp s)) = Some hf"
    and "hf_f_op hf = Some ops"
    and "fo_release ops = Some f"
  shows "\<exists>s'. aufs_release_sp e s = Inr (ret_release e, s')
            \<and> trace s' = trace s @ [Fi_read_lock, Fi_read_unlock,
                                    Call_release f (Aufs_file (filp s)),
                                    Aufs_release_nondir]
            \<and> (\<forall>g x. Call_release g (Branch_file x) \<notin> set (events_since s s'))
            \<and> fi_hfile (filp s') = Map.empty"
  using assms
  by (simp add: aufs_release_sp_def aufs_release_nondir_def emit_def events_since_def)

theorem aufs_release_sp_always_tears_down_witness:
  "ret_release ex_env = - 5
   \<and> fo_release ex_fifo_fops = Some (H_fn 3)
   \<and> ret_and_trace (aufs_release_sp ex_env (ex_opened True))
     = Inr (- 5, [Fi_read_lock, Fi_read_unlock,
                  Call_release (H_fn 3) (Aufs_file (filp (ex_opened True))),
                  Aufs_release_nondir])"
proof -
  have w: "fi_hfile (filp (ex_opened True)) (fi_bstart (filp (ex_opened True))) = Some (ex_h_file 0)"
    and o: "hf_f_op (ex_h_file 0) = Some ex_fifo_fops"
    and r: "fo_release ex_fifo_fops = Some (H_fn 3)"
    by (simp_all add: ex_opened_def ex_h_file_def ex_fifo_fops_def)
  from aufs_release_sp_always_tears_down [OF w o r, of ex_env] obtain s' where
    "aufs_release_sp ex_env (ex_opened True) = Inr (ret_release ex_env, s')"
    "trace s' = trace (ex_opened True) @ [Fi_read_lock, Fi_read_unlock,
                                          Call_release (H_fn 3) (Aufs_file (filp (ex_opened True))),
                                          Aufs_release_nondir]"
    by blast
  then show ?thesis
    using r by (simp add: ret_and_trace_def ex_env_def ex_opened_def)
qed

subsection \<open>Claims about special inodes\<close>

text \<open>
  Claim C9, as the code has it. A character device that reaches
  \<open>au_init_special_fop\<close> in a build with \<open>AuDebugOn\<close> compiled in is accepted
  without any error: the inode comes back as \<open>init_special_inode\<close> left it.
\<close>

theorem au_init_special_fop_chr_no_error:
  "au_init_special_fop True plain_init_special_inode ex_inode S_IFCHR 5
    = Inr \<lparr>i_mode = S_IFCHR, i_rdev = 5, i_fop = Kernel_fops 0\<rparr>"
  by (simp add: au_init_special_fop_def plain_init_special_inode_def ex_inode_def S_IF_defs)

text \<open>
  Claim C9, amended. A character device, a block device or a socket that
  reaches \<open>au_init_special_fop\<close> raises nothing: the inode is returned as
  \<open>init_special_inode\<close> left it, without the table of aufs, and
  \<open>au_special_file\<close> answers 0 for it. The function stops (\<open>AuDebugOn(1)\<close>) only
  for a mode that is none of pipe, character device, block device and socket,
  and only in a build with \<open>AuDebugOn\<close> compiled in.
\<close>

theorem au_init_special_fop_signals:
  "(mode AND S_IFMT = S_IFCHR \<or> mode AND S_IFMT = S_IFBLK \<or> mode AND S_IFMT = S_IFSOCK
      \<longrightarrow> au_init_special_fop dbg init inode mode rdev = Inr (init inode mode rdev)
          \<and> au_special_file mode = 0)
   \<and> ((\<exists>x. au_init_special_fop dbg init inode mode rdev = Inl x)
        = (dbg \<and> mode AND S_IFMT \<notin> {S_IFIFO, S_IFCHR, S_IFBLK, S_IFSOCK}))"
  by (auto simp add: au_init_special_fop_def au_special_file_def Let_def S_IF_defs)

theorem au_init_special_fop_signals_witness:
  "S_IFSOCK AND S_IFMT = S_IFSOCK
   \<and> au_init_special_fop True plain_init_special_inode ex_inode S_IFSOCK 0
       = Inr \<lparr>i_mode = S_IFSOCK, i_rdev = 0, i_fop = Kernel_fops 0\<rparr>
   \<and> au_special_file S_IFSOCK = 0
   \<and> au_init_special_fop True plain_init_special_inode ex_inode S_IFREG 0 = Inl BUG"
proof -
  have s: "S_IFSOCK AND S_IFMT = S_IFSOCK" by (simp add: S_IF_defs)
  have r: "S_IFREG AND S_IFMT \<notin> {S_IFIFO, S_IFCHR, S_IFBLK, S_IFSOCK}" by (simp add: S_IF_defs)
  from au_init_special_fop_signals [of S_IFSOCK True plain_init_special_inode ex_inode 0] s
  have a: "au_init_special_fop True plain_init_special_inode ex_inode S_IFSOCK 0
             = Inr (plain_init_special_inode ex_inode S_IFSOCK 0)"
    and z: "au_special_file S_IFSOCK = 0"
    by blast+
  from au_init_special_fop_signals [of S_IFREG True plain_init_special_inode ex_inode 0] r
  obtain x where "au_init_special_fop True plain_init_special_inode ex_inode S_IFREG 0 = Inl x"
    by blast
  then have b: "au_init_special_fop True plain_init_special_inode ex_inode S_IFREG 0 = Inl BUG"
    by (simp add: au_init_special_fop_def Let_def split: if_splits)
  from s a z b show ?thesis
    by (simp add: plain_init_special_inode_def ex_inode_def)
qed

subsection \<open>Several threads in \<open>au_init_fop_sp\<close>\<close>

lemma au_sp_index_not_FIFO: "au_sp_index m \<noteq> Some AuSp_FIFO"
  by (simp add: au_sp_index_def Let_def)

lemma au_sp_cases: "j = AuSp_FIFO \<or> j = AuSp_FIFO_R \<or> j = AuSp_FIFO_W \<or> j = AuSp_FIFO_RW"
  by (cases j) auto

lemma tinv_init: "tinv M H (init_sys M H) u"
  by (simp add: tinv_def init_sys_def au_sp_fop_static_def)

lemma ginv_init: "ginv M H (init_sys M H)"
  by (simp add: ginv_def init_sys_def au_sp_fop_static_def)

lemmas step_defs = step_def goto_def upd_slot_def Let_def

lemma step_other: "u \<noteq> t \<Longrightarrow> threads (step t g) u = threads g u"
  by (cases "pc (threads g t)")
    (simp_all add: step_defs split: spinlock_t.splits option.splits list.splits)

lemma ginv_needed:
  assumes "ginv M H g"
  shows "sspin g \<noteq> Spin_uninit"
    and "sp_done (tbl g AuSp_FIFO) \<noteq> 0 \<Longrightarrow> sp_spin (tbl g j) \<noteq> Spin_uninit"
    and "sp_done (tbl g AuSp_FIFO) = 0 \<Longrightarrow> copies g = []"
  using assms by (simp_all add: ginv_def)

lemma step_self:
  assumes "tinv M H g t" and "ginv M H g"
  shows "tinv M H (step t g) t"
proof (cases "pc (threads g t)")
  case (L135 rest)
  with assms(1) show ?thesis
    by (cases rest) (auto simp: step_defs tinv_def)
next
  case L131
  with assms(1) show ?thesis
    using au_sp_cases by (auto simp: step_defs tinv_def)
next
  case L130
  with assms(1) ginv_needed(1) [OF assms(2)] show ?thesis
    by (auto simp: step_defs tinv_def split: spinlock_t.splits)
next
  case L159
  with assms(1) ginv_needed(2) [OF assms(2)] show ?thesis
    by (auto simp: step_defs tinv_def split: spinlock_t.splits)
next
  case L141
  with assms(1) show ?thesis
    by (auto simp: step_defs tinv_def au_sp_index_not_FIFO split: option.splits)
next
  case L161
  with assms(1) show ?thesis
    by (auto simp: step_defs tinv_def hfop_def split: option.splits)
next
  case L167
  with assms(1) show ?thesis
    by (auto simp: step_defs tinv_def au_sp_index_not_FIFO au_sp_subst_def)
qed (use assms(1) in \<open>auto simp: step_defs tinv_def au_sp_index_not_FIFO au_sp_subst_def
       split: option.splits\<close>)

lemma early_excl:
  "early l \<Longrightarrow> \<not> holds_slot l \<and> \<not> writing l \<and> \<not> chosen l \<and> \<not> after_copy l \<and> l \<noteq> Ret
     \<and> l \<noteq> L169 \<and> l \<noteq> L171"
  by (cases l) auto

lemma writing_incl: "writing l \<Longrightarrow> holds_slot l \<and> chosen l"
  by (cases l) auto

lemma after_copy_incl: "after_copy l \<Longrightarrow> writing l \<and> holds_slot l \<and> chosen l"
  by (cases l) auto

lemma holds_slot_chosen: "holds_slot l \<Longrightarrow> chosen l"
  by (cases l) auto

lemmas pc_splits = spinlock_t.splits option.splits list.splits

lemma step_sspin:
  "sspin (step t g) =
     (if pc (threads g t) = L130 \<and> sspin g = Spin_unlocked then Spin_locked t
      else if pc (threads g t) = L138 then Spin_unlocked else sspin g)"
  by (cases "pc (threads g t)") (simp_all add: step_defs split: pc_splits)

lemma step_done:
  "sp_done (tbl (step t g) j) =
     (if (pc (threads g t) = L136 \<and> j = AuSp_FIFO)
         \<or> (pc (threads g t) = L167 \<and> j = t_i (threads g t))
      then 1 else sp_done (tbl g j))"
  by (cases "pc (threads g t)") (simp_all add: step_defs split: pc_splits)

lemma step_spin:
  "sp_spin (tbl (step t g) j) =
     (if pc (threads g t) = L159 \<and> j = t_i (threads g t) \<and> sp_spin (tbl g j) = Spin_unlocked
      then Spin_locked t
      else if (\<exists>r. pc (threads g t) = L135 (j # r))
              \<or> (pc (threads g t) = L169 \<and> j = t_i (threads g t))
      then Spin_unlocked else sp_spin (tbl g j))"
  by (cases "pc (threads g t)") (auto simp add: step_defs split: pc_splits)

lemma step_copies:
  "copies (step t g) =
     (if pc (threads g t) = L161 \<and> hfop (t_h_file (threads g t)) \<noteq> None
      then copies g @ [t_i (threads g t)] else copies g)"
  by (cases "pc (threads g t)") (auto simp add: step_defs hfop_def split: pc_splits)

lemma step_fop:
  "pc (threads g t) = L167 \<or> \<not> writing (pc (threads g t)) \<or> j \<noteq> t_i (threads g t) \<Longrightarrow>
   sp_fop (tbl (step t g) j) = sp_fop (tbl g j)"
  by (cases "pc (threads g t)") (auto simp add: step_defs split: pc_splits)

lemma step_after_copy:
  "after_copy (pc (threads g t)) \<Longrightarrow> pc (threads g t) \<noteq> L167 \<Longrightarrow>
   after_copy (pc (threads (step t g) t)) \<and> t_i (threads (step t g) t) = t_i (threads g t)"
  by (cases "pc (threads g t)") (auto simp add: step_defs split: pc_splits)

lemma step_L161:
  "pc (threads g t) = L161 \<Longrightarrow> hfop (t_h_file (threads g t)) \<noteq> None \<Longrightarrow>
   pc (threads (step t g) t) = L162 \<and> t_i (threads (step t g) t) = t_i (threads g t)"
  by (auto simp add: step_defs hfop_def split: pc_splits)

lemma tinvD:
  assumes "tinv M H g u"
  shows "t_f_mode (threads g u) = M u"
    and "t_h_file (threads g u) = H u"
    and "holds_static (pc (threads g u)) \<Longrightarrow> sspin g = Spin_locked u"
    and "holds_slot (pc (threads g u)) \<Longrightarrow> sp_spin (tbl g (t_i (threads g u))) = Spin_locked u"
    and "sp_done (tbl g AuSp_FIFO) = 0 \<Longrightarrow> early (pc (threads g u))"
    and "pc (threads g u) = L136 \<or> (\<exists>r. pc (threads g u) = L135 r)
           \<Longrightarrow> sp_done (tbl g AuSp_FIFO) = 0"
    and "writing (pc (threads g u)) \<Longrightarrow> sp_done (tbl g (t_i (threads g u))) = 0"
    and "chosen (pc (threads g u)) \<Longrightarrow> au_sp_index (M u) = Some (t_i (threads g u))"
    and "pc (threads g u) = L169 \<or> pc (threads g u) = L171
           \<Longrightarrow> sp_done (tbl g (t_i (threads g u))) \<noteq> 0"
    and "pc (threads g u) = Ret
           \<Longrightarrow> au_sp_index (M u) = Some (t_f_op (threads g u))
               \<and> sp_done (tbl g (t_f_op (threads g u))) \<noteq> 0"
    and "after_copy (pc (threads g u))
           \<Longrightarrow> t_i (threads g u) \<in> set (copies g)
               \<and> (case hfop (H u) of
                     None \<Rightarrow> False
                   | Some h \<Rightarrow>
                       Some (sp_fop (tbl g (t_i (threads g u)))) = fop_at (pc (threads g u)) h)"
    and "pc (threads g u) = L135 r \<Longrightarrow> j \<notin> set r \<Longrightarrow> sp_spin (tbl g j) \<noteq> Spin_uninit"
    and "pc (threads g u) = L136 \<Longrightarrow> sp_spin (tbl g j) \<noteq> Spin_uninit"
    and "pc (threads g u) \<noteq> Stopped Hang"
  using assms unfolding tinv_def by blast+

lemma chosen_not_FIFO:
  "tinv M H g u \<Longrightarrow> chosen (pc (threads g u)) \<Longrightarrow> t_i (threads g u) \<noteq> AuSp_FIFO"
  using tinvD(8) [of M H g u] au_sp_index_not_FIFO [of "M u"] by auto

lemma step_others:
  assumes t: "tinv M H g t" and u: "tinv M H g u" and ne: "u \<noteq> t"
  shows "tinv M H (step t g) u"
proof -
  have th: "threads (step t g) u = threads g u" using ne by (rule step_other)
  note T = tinvD [OF t] and U = tinvD [OF u]
  have c3: "holds_static (pc (threads g u)) \<longrightarrow> sspin (step t g) = Spin_locked u"
    using T(3) U(3) ne by (auto simp: step_sspin)
  have c4: "holds_slot (pc (threads g u))
              \<longrightarrow> sp_spin (tbl (step t g) (t_i (threads g u))) = Spin_locked u"
  proof
    assume h: "holds_slot (pc (threads g u))"
    then have lu: "sp_spin (tbl g (t_i (threads g u))) = Spin_locked u" by (rule U(4))
    have ne0: "sp_done (tbl g AuSp_FIFO) \<noteq> 0" using U(5) h early_excl by blast
    have a: "\<not> (\<exists>r. pc (threads g t) = L135 (t_i (threads g u) # r))"
      using T(6) ne0 by blast
    have b: "\<not> (pc (threads g t) = L169 \<and> t_i (threads g u) = t_i (threads g t))"
      using T(4) lu ne by auto
    show "sp_spin (tbl (step t g) (t_i (threads g u))) = Spin_locked u"
      using lu a b by (simp add: step_spin)
  qed
  have c5: "sp_done (tbl (step t g) AuSp_FIFO) = 0 \<longrightarrow> early (pc (threads g u))"
    using U(5) by (auto simp: step_done split: if_splits)
  have c6: "pc (threads g u) = L136 \<or> (\<exists>r. pc (threads g u) = L135 r)
              \<longrightarrow> sp_done (tbl (step t g) AuSp_FIFO) = 0"
  proof
    assume h: "pc (threads g u) = L136 \<or> (\<exists>r. pc (threads g u) = L135 r)"
    then have hs: "holds_static (pc (threads g u))" by auto
    have a: "pc (threads g t) \<noteq> L136" using T(3) U(3) [OF hs] ne by auto
    have b: "\<not> (pc (threads g t) = L167 \<and> AuSp_FIFO = t_i (threads g t))"
      using chosen_not_FIFO [OF t] by auto
    show "sp_done (tbl (step t g) AuSp_FIFO) = 0"
      using U(6) [OF h] a b by (simp add: step_done)
  qed
  have c7: "writing (pc (threads g u)) \<longrightarrow> sp_done (tbl (step t g) (t_i (threads g u))) = 0"
  proof
    assume h: "writing (pc (threads g u))"
    then have hs: "holds_slot (pc (threads g u))" and ch: "chosen (pc (threads g u))"
      using writing_incl by blast+
    have a: "t_i (threads g u) \<noteq> AuSp_FIFO" using chosen_not_FIFO [OF u ch] .
    have b: "\<not> (pc (threads g t) = L167 \<and> t_i (threads g u) = t_i (threads g t))"
      using T(4) U(4) [OF hs] ne by auto
    show "sp_done (tbl (step t g) (t_i (threads g u))) = 0"
      using U(7) [OF h] a b by (simp add: step_done)
  qed
  have c9: "pc (threads g u) = L169 \<or> pc (threads g u) = L171
              \<longrightarrow> sp_done (tbl (step t g) (t_i (threads g u))) \<noteq> 0"
    using U(9) by (simp add: step_done)
  have c10: "pc (threads g u) = Ret
           \<longrightarrow> au_sp_index (M u) = Some (t_f_op (threads g u))
               \<and> sp_done (tbl (step t g) (t_f_op (threads g u))) \<noteq> 0"
    using U(10) by (simp add: step_done)
  have c11: "after_copy (pc (threads g u))
           \<longrightarrow> t_i (threads g u) \<in> set (copies (step t g))
               \<and> (case hfop (H u) of
                     None \<Rightarrow> False
                   | Some h \<Rightarrow>
                       Some (sp_fop (tbl (step t g) (t_i (threads g u))))
                         = fop_at (pc (threads g u)) h)"
  proof
    assume h: "after_copy (pc (threads g u))"
    then have hs: "holds_slot (pc (threads g u))" using after_copy_incl by blast
    have "writing (pc (threads g t)) \<Longrightarrow> t_i (threads g u) \<noteq> t_i (threads g t)"
      using T(4) U(4) [OF hs] ne writing_incl by fastforce
    then have f: "sp_fop (tbl (step t g) (t_i (threads g u))) = sp_fop (tbl g (t_i (threads g u)))"
      by (intro step_fop) blast
    show "t_i (threads g u) \<in> set (copies (step t g))
               \<and> (case hfop (H u) of
                     None \<Rightarrow> False
                   | Some h \<Rightarrow>
                       Some (sp_fop (tbl (step t g) (t_i (threads g u))))
                         = fop_at (pc (threads g u)) h)"
      using U(11) [OF h] f by (auto simp: step_copies split: option.splits)
  qed
  have c12: "\<forall>r j. pc (threads g u) = L135 r \<and> j \<notin> set r
               \<longrightarrow> sp_spin (tbl (step t g) j) \<noteq> Spin_uninit"
    using U(12) by (auto simp: step_spin)
  have c13: "pc (threads g u) = L136 \<longrightarrow> (\<forall>j. sp_spin (tbl (step t g) j) \<noteq> Spin_uninit)"
    using U(13) by (auto simp: step_spin)
  show ?thesis
    unfolding tinv_def th
    using U(1,2,8,14) c3 c4 c5 c6 c7 c9 c10 c11 c12 c13 by blast
qed

lemma ginvD:
  assumes "ginv M H g"
  shows "sspin g \<noteq> Spin_uninit"
    and "sp_done (tbl g AuSp_FIFO) = 0 \<Longrightarrow> copies g = []"
    and "sp_done (tbl g AuSp_FIFO) \<noteq> 0 \<Longrightarrow> sp_spin (tbl g j) \<noteq> Spin_uninit"
    and "distinct (copies g)"
    and "AuSp_FIFO \<notin> set (copies g)"
    and "sp_fop (tbl g AuSp_FIFO) = sp_fop (au_sp_fop_static AuSp_FIFO)"
    and "i \<in> set (copies g) \<Longrightarrow> sp_done (tbl g i) = 0 \<Longrightarrow>
           \<exists>t'. sp_spin (tbl g i) = Spin_locked t' \<and> after_copy (pc (threads g t'))
                \<and> t_i (threads g t') = i"
    and "i \<noteq> AuSp_FIFO \<Longrightarrow> sp_done (tbl g i) \<noteq> 0 \<Longrightarrow>
           i \<in> set (copies g)
           \<and> (\<exists>t h. hfop (H t) = Some h \<and> au_sp_index (M t) = Some i
                    \<and> sp_fop (tbl g i) = au_sp_subst h)"
proof -
  from assms show "sspin g \<noteq> Spin_uninit" by (simp add: ginv_def)
  from assms show "sp_done (tbl g AuSp_FIFO) = 0 \<Longrightarrow> copies g = []" by (simp add: ginv_def)
  from assms show "sp_done (tbl g AuSp_FIFO) \<noteq> 0 \<Longrightarrow> sp_spin (tbl g j) \<noteq> Spin_uninit"
    by (simp add: ginv_def)
  from assms show "distinct (copies g)" by (simp add: ginv_def)
  from assms show "AuSp_FIFO \<notin> set (copies g)" by (simp add: ginv_def)
  from assms show "sp_fop (tbl g AuSp_FIFO) = sp_fop (au_sp_fop_static AuSp_FIFO)"
    by (simp add: ginv_def)
  from assms have c: "\<forall>i. i \<in> set (copies g) \<and> sp_done (tbl g i) = 0 \<longrightarrow>
             (case sp_spin (tbl g i) of
                Spin_locked t \<Rightarrow> after_copy (pc (threads g t)) \<and> t_i (threads g t) = i
              | _ \<Rightarrow> False)"
    unfolding ginv_def by (elim conjE)
  show "i \<in> set (copies g) \<Longrightarrow> sp_done (tbl g i) = 0 \<Longrightarrow>
           \<exists>t'. sp_spin (tbl g i) = Spin_locked t' \<and> after_copy (pc (threads g t'))
                \<and> t_i (threads g t') = i"
    using c [rule_format, of i] by (cases "sp_spin (tbl g i)") simp_all
  from assms have d: "\<forall>i. i \<noteq> AuSp_FIFO \<and> sp_done (tbl g i) \<noteq> 0 \<longrightarrow>
             i \<in> set (copies g)
             \<and> (\<exists>t h. hfop (H t) = Some h \<and> au_sp_index (M t) = Some i
                      \<and> sp_fop (tbl g i) = au_sp_subst h)"
    unfolding ginv_def by (elim conjE)
  show "i \<noteq> AuSp_FIFO \<Longrightarrow> sp_done (tbl g i) \<noteq> 0 \<Longrightarrow>
           i \<in> set (copies g)
           \<and> (\<exists>t h. hfop (H t) = Some h \<and> au_sp_index (M t) = Some i
                    \<and> sp_fop (tbl g i) = au_sp_subst h)"
    using d [rule_format, of i] by simp
qed

lemma step_ginv:
  assumes t: "tinv M H g t" and g: "ginv M H g"
  shows "ginv M H (step t g)"
proof -
  note T = tinvD [OF t] and G = ginvD [OF g]
  have g1: "sspin (step t g) \<noteq> Spin_uninit"
    using G(1) by (simp add: step_sspin)
  have mono: "\<And>j. sp_done (tbl (step t g) j) = 0 \<Longrightarrow> sp_done (tbl g j) = 0"
    by (simp add: step_done split: if_splits)
  have g2: "sp_done (tbl (step t g) AuSp_FIFO) = 0 \<longrightarrow> copies (step t g) = []"
  proof
    assume "sp_done (tbl (step t g) AuSp_FIFO) = 0"
    then have z: "sp_done (tbl g AuSp_FIFO) = 0" by (rule mono)
    then have "early (pc (threads g t))" by (rule T(5))
    then have "pc (threads g t) \<noteq> L161" by auto
    with G(2) [OF z] show "copies (step t g) = []" by (simp add: step_copies)
  qed
  have g3: "sp_done (tbl (step t g) AuSp_FIFO) \<noteq> 0
              \<longrightarrow> (\<forall>j. sp_spin (tbl (step t g) j) \<noteq> Spin_uninit)"
  proof (intro impI allI)
    fix j
    assume n: "sp_done (tbl (step t g) AuSp_FIFO) \<noteq> 0"
    have "sp_spin (tbl g j) \<noteq> Spin_uninit"
    proof (cases "sp_done (tbl g AuSp_FIFO) = 0")
      case False
      then show ?thesis by (rule G(3))
    next
      case True
      with n have "pc (threads g t) = L136 \<or> pc (threads g t) = L167"
        by (auto simp: step_done split: if_splits)
      moreover have "pc (threads g t) \<noteq> L167" using T(5) [OF True] by auto
      ultimately show ?thesis using T(13) by blast
    qed
    then show "sp_spin (tbl (step t g) j) \<noteq> Spin_uninit" by (simp add: step_spin)
  qed
  have fresh: "pc (threads g t) = L161 \<Longrightarrow> t_i (threads g t) \<notin> set (copies g)"
  proof
    assume l: "pc (threads g t) = L161" and m: "t_i (threads g t) \<in> set (copies g)"
    from l have "sp_done (tbl g (t_i (threads g t))) = 0" using T(7) by simp
    from G(7) [OF m this] obtain t' where
      t': "sp_spin (tbl g (t_i (threads g t))) = Spin_locked t'" "after_copy (pc (threads g t'))"
      by blast
    from l have "sp_spin (tbl g (t_i (threads g t))) = Spin_locked t" using T(4) by simp
    with t' l show False by simp
  qed
  have g4: "distinct (copies (step t g))"
    using G(4) fresh by (simp add: step_copies)
  have g5: "AuSp_FIFO \<notin> set (copies (step t g))"
    using G(5) chosen_not_FIFO [OF t] by (auto simp: step_copies)
  have g6: "sp_fop (tbl (step t g) AuSp_FIFO) = sp_fop (au_sp_fop_static AuSp_FIFO)"
  proof -
    have "writing (pc (threads g t)) \<Longrightarrow> AuSp_FIFO \<noteq> t_i (threads g t)"
      using chosen_not_FIFO [OF t] writing_incl by fastforce
    then have "sp_fop (tbl (step t g) AuSp_FIFO) = sp_fop (tbl g AuSp_FIFO)"
      by (intro step_fop) blast
    with G(6) show ?thesis by simp
  qed
  have g7: "\<forall>i. i \<in> set (copies (step t g)) \<and> sp_done (tbl (step t g) i) = 0 \<longrightarrow>
             (case sp_spin (tbl (step t g) i) of
                Spin_locked t' \<Rightarrow> after_copy (pc (threads (step t g) t'))
                                  \<and> t_i (threads (step t g) t') = i
              | _ \<Rightarrow> False)"
  proof (intro allI impI)
    fix i
    assume a: "i \<in> set (copies (step t g)) \<and> sp_done (tbl (step t g) i) = 0"
    then have d0: "sp_done (tbl g i) = 0" using mono by blast
    have "\<exists>t'. sp_spin (tbl (step t g) i) = Spin_locked t'
               \<and> after_copy (pc (threads (step t g) t')) \<and> t_i (threads (step t g) t') = i"
    proof (cases "i \<in> set (copies g)")
      case True
      from G(7) [OF True d0] obtain t' where
        t': "sp_spin (tbl g i) = Spin_locked t'" "after_copy (pc (threads g t'))"
          "t_i (threads g t') = i"
        by blast
      have ne0: "sp_done (tbl g AuSp_FIFO) \<noteq> 0" using G(2) True by auto
      have x: "\<not> (\<exists>r. pc (threads g t) = L135 (i # r))" using T(6) ne0 by blast
      show ?thesis
      proof (cases "t' = t")
        case same: True
        from a have "\<not> (pc (threads g t) = L167 \<and> i = t_i (threads g t))"
          by (auto simp: step_done split: if_splits)
        with t' same have n167: "pc (threads g t) \<noteq> L167" by simp
        from step_after_copy [OF _ n167] t' same
        have "after_copy (pc (threads (step t g) t)) \<and> t_i (threads (step t g) t) = i"
          by simp
        moreover have "sp_spin (tbl (step t g) i) = Spin_locked t"
          using t' same x n167 by (auto simp: step_spin)
        ultimately show ?thesis by blast
      next
        case other: False
        have y: "\<not> (pc (threads g t) = L169 \<and> i = t_i (threads g t))"
          using T(4) t'(1) other by auto
        have "sp_spin (tbl (step t g) i) = Spin_locked t'"
          using t'(1) x y by (simp add: step_spin)
        moreover have "threads (step t g) t' = threads g t'"
          using other by (rule step_other)
        ultimately show ?thesis using t'(2,3) by auto
      qed
    next
      case False
      with a have l: "pc (threads g t) = L161" and h: "hfop (t_h_file (threads g t)) \<noteq> None"
        and i: "i = t_i (threads g t)"
        by (auto simp: step_copies split: if_splits)
      from l have "sp_spin (tbl g i) = Spin_locked t" using T(4) i by simp
      with l have "sp_spin (tbl (step t g) i) = Spin_locked t" by (simp add: step_spin)
      with step_L161 [OF l h] i show ?thesis by auto
    qed
    then show "case sp_spin (tbl (step t g) i) of
                Spin_locked t' \<Rightarrow> after_copy (pc (threads (step t g) t'))
                                  \<and> t_i (threads (step t g) t') = i
              | _ \<Rightarrow> False"
      by auto
  qed
  have g8: "\<forall>i. i \<noteq> AuSp_FIFO \<and> sp_done (tbl (step t g) i) \<noteq> 0 \<longrightarrow>
             i \<in> set (copies (step t g))
             \<and> (\<exists>w h. hfop (H w) = Some h \<and> au_sp_index (M w) = Some i
                      \<and> sp_fop (tbl (step t g) i) = au_sp_subst h)"
  proof (intro allI impI)
    fix i
    assume a: "i \<noteq> AuSp_FIFO \<and> sp_done (tbl (step t g) i) \<noteq> 0"
    have sub: "set (copies g) \<subseteq> set (copies (step t g))" by (auto simp: step_copies)
    show "i \<in> set (copies (step t g))
             \<and> (\<exists>w h. hfop (H w) = Some h \<and> au_sp_index (M w) = Some i
                      \<and> sp_fop (tbl (step t g) i) = au_sp_subst h)"
    proof (cases "sp_done (tbl g i) = 0")
      case False
      have "pc (threads g t) = L167 \<or> \<not> writing (pc (threads g t)) \<or> i \<noteq> t_i (threads g t)"
        using T(7) False by auto
      then have "sp_fop (tbl (step t g) i) = sp_fop (tbl g i)" by (rule step_fop)
      with G(8) [of i] a False sub show ?thesis by auto
    next
      case True
      with a have l: "pc (threads g t) = L167" and i: "i = t_i (threads g t)"
        by (auto simp: step_done split: if_splits)
      from l have f: "sp_fop (tbl (step t g) i) = sp_fop (tbl g i)"
        by (intro step_fop) simp
      from T(11) l i obtain h where "hfop (H t) = Some h" "sp_fop (tbl g i) = au_sp_subst h"
        and m: "i \<in> set (copies g)"
        by (auto split: option.splits)
      moreover have "au_sp_index (M t) = Some i" using T(8) l i by simp
      ultimately show ?thesis using f sub by auto
    qed
  qed
  show ?thesis
    unfolding ginv_def by (intro conjI g1 g2 g3 g4 g5 g6 g7 g8)
qed

lemma inv_init: "inv M H (init_sys M H)"
  by (simp add: inv_def tinv_init ginv_init)

lemma step_inv:
  assumes "inv M H g"
  shows "inv M H (step t g)"
proof -
  from assms have T: "\<And>u. tinv M H g u" and G: "ginv M H g" by (simp_all add: inv_def)
  have "tinv M H (step t g) u" for u
  proof (cases "u = t")
    case True
    with step_self [OF T G] show ?thesis by simp
  next
    case False
    with step_others [OF T T] show ?thesis by blast
  qed
  with step_ginv [OF T G] show ?thesis by (simp add: inv_def)
qed

lemma run_inv: "inv M H g \<Longrightarrow> inv M H (run sch g)"
  by (induction sch arbitrary: g) (simp_all add: step_inv)

lemma step_done_fixed:
  assumes "inv M H g" and "sp_done (tbl g i) \<noteq> 0"
  shows "sp_done (tbl (step t g) i) \<noteq> 0 \<and> sp_fop (tbl (step t g) i) = sp_fop (tbl g i)"
proof -
  from assms(1) have T: "tinv M H g t" by (simp add: inv_def)
  have "pc (threads g t) = L167 \<or> \<not> writing (pc (threads g t)) \<or> i \<noteq> t_i (threads g t)"
    using tinvD(7) [OF T] assms(2) by auto
  then have "sp_fop (tbl (step t g) i) = sp_fop (tbl g i)" by (rule step_fop)
  with assms(2) show ?thesis by (simp add: step_done)
qed

lemma run_done_fixed:
  "inv M H g \<Longrightarrow> sp_done (tbl g i) \<noteq> 0 \<Longrightarrow>
   sp_done (tbl (run sch g) i) \<noteq> 0 \<and> sp_fop (tbl (run sch g) i) = sp_fop (tbl g i)"
proof (induction sch arbitrary: g)
  case Nil
  then show ?case by simp
next
  case (Cons t sch)
  from step_done_fixed [OF Cons.prems] step_inv [OF Cons.prems(1)]
  show ?case using Cons.IH [of "step t g"] by simp
qed

lemma distinct_count_le_1: "distinct xs \<Longrightarrow> count_list xs x \<le> 1"
  by (induction xs) (auto simp: count_list_0_iff)

lemma distinct_count_1: "distinct xs \<Longrightarrow> x \<in> set xs \<Longrightarrow> count_list xs x = 1"
  by (induction xs) (auto simp: count_list_0_iff)

lemma ex_run:
  "copies (run ex_sched (init_sys ex_modes ex_h_files)) = [AuSp_FIFO_R]
   \<and> pc (threads (run ex_sched (init_sys ex_modes ex_h_files)) 0) = Ret
   \<and> pc (threads (run ex_sched (init_sys ex_modes ex_h_files)) 1) = Ret
   \<and> t_f_op (threads (run ex_sched (init_sys ex_modes ex_h_files)) 0) = AuSp_FIFO_R
   \<and> t_f_op (threads (run ex_sched (init_sys ex_modes ex_h_files)) 1) = AuSp_FIFO_R
   \<and> sp_done (tbl (run ex_sched (init_sys ex_modes ex_h_files)) AuSp_FIFO_R) = 1
   \<and> sp_fop (tbl (run ex_sched (init_sys ex_modes ex_h_files)) AuSp_FIFO_R)
       = \<lparr>fo_open = Some (H_fn 0), fo_aio_read = Some Fn_aufs_aio_read_sp,
         fo_aio_write = Some Fn_aufs_aio_write_sp, fo_release = Some Fn_aufs_release_sp,
         fo_rest = 7\<rparr>"
  by code_simp


text \<open>
  Claim C6. Whatever the schedule of the threads that run \<open>au_init_fop_sp\<close>
  (\<open>g\<close> is any state they reach, \<open>g'\<close> any later state): line 161 is executed
  at most once for each slot; a thread is in the inner \<open>if (!p->done)\<close> only
  with the slot's lock held and the slot's flag clear, and the flag is set
  when it comes to unlock; once the flag of a slot is set, the flag stays set
  and the slot's table is never written again; such a slot was copied exactly
  once and holds the table of a branch file with \<open>aio_read\<close>, \<open>aio_write\<close>
  (where the branch has them) and \<open>release\<close> replaced by the entry points of
  this file; a thread that returns has \<open>f_op\<close> pointing to the slot of its
  file's class, whose flag is set; two files of the same class, whenever
  they were opened, point to the same slot and find the same table there; no
  thread ever meets a lock that was not initialised.
\<close>

theorem au_init_fop_sp_initialises_once:
  assumes g: "g = run sch (init_sys M H)" and g': "g' = run sch' g"
  shows "(\<forall>i. count_list (copies g) i \<le> 1)
    \<and> (\<forall>t. writing (pc (threads g t))
           \<longrightarrow> sp_spin (tbl g (t_i (threads g t))) = Spin_locked t
               \<and> sp_done (tbl g (t_i (threads g t))) = 0)
    \<and> (\<forall>t. pc (threads g t) = L169 \<longrightarrow> sp_done (tbl g (t_i (threads g t))) \<noteq> 0)
    \<and> (\<forall>i. sp_done (tbl g i) \<noteq> 0
           \<longrightarrow> sp_done (tbl g' i) \<noteq> 0 \<and> sp_fop (tbl g' i) = sp_fop (tbl g i))
    \<and> (\<forall>i. i \<noteq> AuSp_FIFO \<and> sp_done (tbl g i) \<noteq> 0
           \<longrightarrow> count_list (copies g) i = 1
               \<and> (\<exists>t h. hfop (H t) = Some h \<and> au_sp_index (M t) = Some i
                        \<and> sp_fop (tbl g i) = au_sp_subst h))
    \<and> (\<forall>t. pc (threads g t) = Ret
           \<longrightarrow> au_sp_index (M t) = Some (t_f_op (threads g t))
               \<and> sp_done (tbl g (t_f_op (threads g t))) \<noteq> 0)
    \<and> (\<forall>t u. pc (threads g t) = Ret \<and> pc (threads g' u) = Ret
               \<and> au_sp_index (M u) = au_sp_index (M t)
           \<longrightarrow> t_f_op (threads g' u) = t_f_op (threads g t)
               \<and> sp_fop (tbl g' (t_f_op (threads g' u))) = sp_fop (tbl g (t_f_op (threads g t))))
    \<and> (\<forall>t. pc (threads g t) \<noteq> Stopped Hang)"
proof -
  have I: "inv M H g" unfolding g by (rule run_inv [OF inv_init])
  have I': "inv M H g'" unfolding g' by (rule run_inv [OF I])
  from I have T: "\<And>u. tinv M H g u" and G: "ginv M H g" by (simp_all add: inv_def)
  from I' have T': "\<And>u. tinv M H g' u" by (simp add: inv_def)
  have c1: "\<forall>i. count_list (copies g) i \<le> 1"
    using distinct_count_le_1 [OF ginvD(4) [OF G]] by blast
  have c2: "\<forall>t. writing (pc (threads g t))
           \<longrightarrow> sp_spin (tbl g (t_i (threads g t))) = Spin_locked t
               \<and> sp_done (tbl g (t_i (threads g t))) = 0"
    using tinvD(4,7) [OF T] writing_incl by blast
  have c3: "\<forall>t. pc (threads g t) = L169 \<longrightarrow> sp_done (tbl g (t_i (threads g t))) \<noteq> 0"
    using tinvD(9) [OF T] by blast
  have c4: "\<forall>i. sp_done (tbl g i) \<noteq> 0
           \<longrightarrow> sp_done (tbl g' i) \<noteq> 0 \<and> sp_fop (tbl g' i) = sp_fop (tbl g i)"
    unfolding g' using run_done_fixed [OF I] by blast
  have c5: "\<forall>i. i \<noteq> AuSp_FIFO \<and> sp_done (tbl g i) \<noteq> 0
           \<longrightarrow> count_list (copies g) i = 1
               \<and> (\<exists>t h. hfop (H t) = Some h \<and> au_sp_index (M t) = Some i
                        \<and> sp_fop (tbl g i) = au_sp_subst h)"
    using ginvD(8) [OF G] distinct_count_1 [OF ginvD(4) [OF G]] by blast
  have c6: "\<forall>t. pc (threads g t) = Ret
           \<longrightarrow> au_sp_index (M t) = Some (t_f_op (threads g t))
               \<and> sp_done (tbl g (t_f_op (threads g t))) \<noteq> 0"
    using tinvD(10) [OF T] by blast
  have c7: "\<forall>t u. pc (threads g t) = Ret \<and> pc (threads g' u) = Ret
               \<and> au_sp_index (M u) = au_sp_index (M t)
           \<longrightarrow> t_f_op (threads g' u) = t_f_op (threads g t)
               \<and> sp_fop (tbl g' (t_f_op (threads g' u))) = sp_fop (tbl g (t_f_op (threads g t)))"
  proof (intro allI impI)
    fix t u
    assume a: "pc (threads g t) = Ret \<and> pc (threads g' u) = Ret
               \<and> au_sp_index (M u) = au_sp_index (M t)"
    with tinvD(10) [OF T, of t] tinvD(10) [OF T', of u]
    have e: "t_f_op (threads g' u) = t_f_op (threads g t)"
      and d: "sp_done (tbl g (t_f_op (threads g t))) \<noteq> 0"
      by auto
    from c4 d have "sp_fop (tbl g' (t_f_op (threads g t))) = sp_fop (tbl g (t_f_op (threads g t)))"
      by blast
    with e show "t_f_op (threads g' u) = t_f_op (threads g t)
               \<and> sp_fop (tbl g' (t_f_op (threads g' u))) = sp_fop (tbl g (t_f_op (threads g t)))"
      by simp
  qed
  have c8: "\<forall>t. pc (threads g t) \<noteq> Stopped Hang"
    using tinvD(14) [OF T] by blast
  show ?thesis by (intro conjI c1 c2 c3 c4 c5 c6 c7 c8)
qed

theorem au_init_fop_sp_initialises_once_witness:
  "sp_done (tbl (run ex_sched (init_sys ex_modes ex_h_files)) AuSp_FIFO_R) \<noteq> 0
   \<and> count_list (copies (run ex_sched (init_sys ex_modes ex_h_files))) AuSp_FIFO_R = 1
   \<and> pc (threads (run ex_sched (init_sys ex_modes ex_h_files)) 0) = Ret
   \<and> pc (threads (run ex_sched (init_sys ex_modes ex_h_files)) 1) = Ret
   \<and> t_f_op (threads (run ex_sched (init_sys ex_modes ex_h_files)) 1)
       = t_f_op (threads (run ex_sched (init_sys ex_modes ex_h_files)) 0)
   \<and> sp_fop (tbl (run [2, 2, 2, 2] (run ex_sched (init_sys ex_modes ex_h_files))) AuSp_FIFO_R)
       = sp_fop (tbl (run ex_sched (init_sys ex_modes ex_h_files)) AuSp_FIFO_R)"
proof -
  note c = au_init_fop_sp_initialises_once [OF refl refl, of ex_sched ex_modes ex_h_files "[2, 2, 2, 2]"]
  have d: "sp_done (tbl (run ex_sched (init_sys ex_modes ex_h_files)) AuSp_FIFO_R) \<noteq> 0"
    using ex_run by simp
  from c d have "count_list (copies (run ex_sched (init_sys ex_modes ex_h_files))) AuSp_FIFO_R = 1"
    by blast
  moreover from c d
  have "sp_fop (tbl (run [2, 2, 2, 2] (run ex_sched (init_sys ex_modes ex_h_files))) AuSp_FIFO_R)
       = sp_fop (tbl (run ex_sched (init_sys ex_modes ex_h_files)) AuSp_FIFO_R)"
    by blast
  ultimately show ?thesis using d ex_run by simp
qed

subsection \<open>One thread alone runs \<open>au_init_fop_sp\<close> as the function computes it\<close>

lemma run_append: "run (xs @ ys) g = run ys (run xs g)"
  by (induction xs arbitrary: g) simp_all

lemma run_fixed: "step t g = g \<Longrightarrow> run (replicate n t) g = g"
  by (induction n) simp_all

lemma first_block_done:
  assumes "pc (threads g t) = L126" and "sp_done (tbl g AuSp_FIFO) \<noteq> 0"
  shows "run (replicate 10 t) g = run (replicate 9 t) (goto t L141 g)"
proof -
  have "replicate 10 t = t # replicate 9 t" by (simp add: numeral_eq_Suc)
  with assms show ?thesis by (simp add: step_defs)
qed

lemma first_block_init:
  assumes "pc (threads g t) = L126" and "sp_done (tbl g AuSp_FIFO) = 0"
    and "sspin g = Spin_unlocked"
  shows "run (replicate 10 t) g =
     goto t L141 (g\<lparr>tbl := (spin_lock_init_all (tbl g))
                     (AuSp_FIFO := (spin_lock_init_all (tbl g) AuSp_FIFO)\<lparr>sp_done := 1\<rparr>)\<rparr>)"
proof -
  have r: "replicate 10 t = [t, t, t, t, t, t, t, t, t, t]" by (simp add: numeral_eq_Suc)
  have "tbl (run (replicate 10 t) g) = (spin_lock_init_all (tbl g))
                     (AuSp_FIFO := (spin_lock_init_all (tbl g) AuSp_FIFO)\<lparr>sp_done := 1\<rparr>)"
    using assms unfolding r
    apply (simp add: step_defs spin_lock_init_all_def fun_eq_iff)
    apply (intro allI)
    subgoal for x by (cases x) simp_all
    done
  moreover have "sspin (run (replicate 10 t) g) = sspin g
      \<and> copies (run (replicate 10 t) g) = copies g
      \<and> threads (run (replicate 10 t) g) = (threads g)(t := (threads g t)\<lparr>pc := L141\<rparr>)"
    using assms unfolding r by (simp add: step_defs)
  ultimately show ?thesis by (simp add: goto_def)
qed


lemma second_block_done:
  assumes "pc (threads g t) = L141" and "au_sp_index (t_f_mode (threads g t)) = Some i"
    and "sp_done (tbl g i) \<noteq> 0"
  shows "run (replicate 11 t) g =
     g\<lparr>threads := (threads g)(t := (threads g t)\<lparr>t_i := i, pc := Ret, t_f_op := i\<rparr>)\<rparr>"
proof -
  have r: "replicate 11 t = [t, t, t] @ replicate 8 t" by (simp add: numeral_eq_Suc)
  have a: "run [t, t, t] g =
     g\<lparr>threads := (threads g)(t := (threads g t)\<lparr>t_i := i, pc := Ret, t_f_op := i\<rparr>)\<rparr>"
    using assms by (simp add: step_defs)
  have "step t (run [t, t, t] g) = run [t, t, t] g"
    unfolding a by (simp add: step_defs)
  then show ?thesis unfolding r run_append using a by (simp add: run_fixed)
qed

lemma second_block_init:
  assumes "pc (threads g t) = L141" and "au_sp_index (t_f_mode (threads g t)) = Some i"
    and "sp_done (tbl g i) = 0" and "sp_spin (tbl g i) = Spin_unlocked"
    and "t_h_file (threads g t) = Some hf" and "hf_f_op hf = Some h"
  shows "run (replicate 11 t) g =
     g\<lparr>tbl := (tbl g)(i := (tbl g i)\<lparr>sp_fop := au_sp_subst h, sp_done := 1\<rparr>),
       copies := copies g @ [i],
       threads := (threads g)(t := (threads g t)\<lparr>t_i := i, pc := Ret, t_f_op := i\<rparr>)\<rparr>"
proof -
  have r: "replicate 11 t = [t, t, t, t, t, t, t, t, t, t, t]" by (simp add: numeral_eq_Suc)
  have "tbl (run (replicate 11 t) g) = (tbl g)(i := (tbl g i)\<lparr>sp_fop := au_sp_subst h, sp_done := 1\<rparr>)"
    using assms unfolding r
    by (simp add: step_defs au_sp_subst_def fun_eq_iff)
  moreover have "sspin (run (replicate 11 t) g) = sspin g
      \<and> copies (run (replicate 11 t) g) = copies g @ [i]
      \<and> threads (run (replicate 11 t) g)
          = (threads g)(t := (threads g t)\<lparr>t_i := i, pc := Ret, t_f_op := i\<rparr>)"
    using assms unfolding r by (simp add: step_defs)
  ultimately show ?thesis by simp
qed



lemma step_stopped: "pc (threads g t) = Stopped x \<Longrightarrow> step t g = g"
  by (simp add: step_def)

lemma step_returned: "pc (threads g t) = Ret \<Longrightarrow> step t g = g"
  by (simp add: step_def)

lemma second_block_null:
  assumes "pc (threads g t) = L141" and "au_sp_index (t_f_mode (threads g t)) = Some i"
    and "sp_done (tbl g i) = 0" and "sp_spin (tbl g i) = Spin_unlocked"
    and "hfop (t_h_file (threads g t)) = None"
  shows "pc (threads (run (replicate 11 t) g) t) = Stopped Oops"
proof -
  have r: "replicate 11 t = [t, t, t, t, t] @ replicate 6 t" by (simp add: numeral_eq_Suc)
  have a: "pc (threads (run [t, t, t, t, t] g) t) = Stopped Oops"
  proof (cases "t_h_file (threads g t)")
    case None
    with assms(1-4) show ?thesis by (simp add: step_defs)
  next
    case (Some hf)
    with assms(5) have "hf_f_op hf = None" by (simp add: hfop_def)
    with Some assms(1-4) show ?thesis by (simp add: step_defs)
  qed
  then have "step t (run [t, t, t, t, t] g) = run [t, t, t, t, t] g"
    by (rule step_stopped)
  then have "run (replicate 6 t) (run [t, t, t, t, t] g) = run [t, t, t, t, t] g"
    by (rule run_fixed)
  with a show ?thesis unfolding r run_append by (simp only:)
qed

lemma second_block_bug:
  assumes "pc (threads g t) = L141" and "au_sp_index (t_f_mode (threads g t)) = None"
  shows "pc (threads (run (replicate 11 t) g) t) = Stopped BUG"
proof -
  have r: "replicate 11 t = [t] @ replicate 10 t" by (simp add: numeral_eq_Suc)
  have a: "pc (threads (run [t] g) t) = Stopped BUG"
    using assms by (simp add: step_defs)
  then have "step t (run [t] g) = run [t] g"
    by (rule step_stopped)
  then have "run (replicate 10 t) (run [t] g) = run [t] g"
    by (rule run_fixed)
  with a show ?thesis unfolding r run_append by (simp only:)
qed

lemma au_init_fop_sp_blocks:
  "au_init_fop_sp s =
     (if sp_done (au_sp_fop s AuSp_FIFO) = 0
      then (if static_spin s \<noteq> Spin_unlocked then Inl Hang
            else init_fop_sp_slot
                   (s\<lparr>au_sp_fop := (spin_lock_init_all (au_sp_fop s))
                      (AuSp_FIFO := (spin_lock_init_all (au_sp_fop s) AuSp_FIFO)\<lparr>sp_done := 1\<rparr>)\<rparr>))
      else init_fop_sp_slot s)"
  by (simp add: au_init_fop_sp_def init_fop_sp_slot_def)

lemma agrees_fixed:
  assumes "agrees g t r" and "r \<noteq> Inl Hang"
  shows "run (replicate n t) g = g"
proof -
  from assms have "pc (threads g t) = Ret \<or> (\<exists>x. pc (threads g t) = Stopped x)"
    by (auto simp: agrees_def split: sum.splits fatal.splits)
  then have "step t g = g" using step_returned step_stopped by blast
  then show ?thesis by (rule run_fixed)
qed

lemma second_block_agrees:
  assumes "at_switch g t s"
  shows "agrees (run (replicate 11 t) g) t (init_fop_sp_slot s)"
proof (cases "au_sp_index (f_mode (filp s))")
  case None
  with assms second_block_bug [of g t] show ?thesis
    by (simp add: at_switch_def agrees_def init_fop_sp_slot_def)
next
  case (Some i)
  with assms have i: "au_sp_index (t_f_mode (threads g t)) = Some i" and l: "pc (threads g t) = L141"
    by (simp_all add: at_switch_def)
  show ?thesis
  proof (cases "sp_done (au_sp_fop s i) = 0")
    case False
    with assms have "sp_done (tbl g i) \<noteq> 0" by (simp add: at_switch_def)
    from second_block_done [OF l i this] assms Some False show ?thesis
      by (simp add: at_switch_def agrees_def init_fop_sp_slot_def)
  next
    case True
    with assms have d: "sp_done (tbl g i) = 0" by (simp add: at_switch_def)
    show ?thesis
    proof (cases "sp_spin (au_sp_fop s i) = Spin_unlocked")
      case False
      with Some True show ?thesis by (simp add: agrees_def init_fop_sp_slot_def)
    next
      case u: True
      with assms have sp: "sp_spin (tbl g i) = Spin_unlocked" by (simp add: at_switch_def)
      show ?thesis
      proof (cases "hfop (t_h_file (threads g t))")
        case None
        from second_block_null [OF l i d sp None] None assms Some True u show ?thesis
          by (auto simp: at_switch_def agrees_def init_fop_sp_slot_def hfop_def
              split: option.splits)
      next
        case (Some h)
        then obtain hf where hf: "t_h_file (threads g t) = Some hf" "hf_f_op hf = Some h"
          by (auto simp: hfop_def split: option.splits)
        from hf assms have hs: "fi_hfile (filp s) (fi_bstart (filp s)) = Some hf"
          and tb: "tbl g = au_sp_fop s" and ss: "sspin g = static_spin s"
          by (simp_all add: at_switch_def)
        from second_block_init [OF l i d sp hf] hf(2) hs tb ss
          \<open>au_sp_index (f_mode (filp s)) = Some i\<close> True u
        show ?thesis
          by (simp add: agrees_def init_fop_sp_slot_def)
      qed
    qed
  qed
qed

lemma au_init_fop_sp_solo:
  assumes "enters g t s"
  shows "agrees (run (replicate 21 t) g) t (au_init_fop_sp s)"
proof (cases "sp_done (au_sp_fop s AuSp_FIFO) = 0")
  case False
  with assms have l: "pc (threads g t) = L126" and d: "sp_done (tbl g AuSp_FIFO) \<noteq> 0"
    by (simp_all add: enters_def)
  have sw: "at_switch (goto t L141 g) t s"
    using assms by (simp add: enters_def at_switch_def goto_def)
  have "replicate 21 t = t # replicate 11 t @ replicate 9 t"
    by (simp add: numeral_eq_Suc)
  then have r: "run (replicate 21 t) g = run (replicate 9 t) (run (replicate 11 t) (goto t L141 g))"
    using l d by (simp add: run_append step_defs)
  show ?thesis
  proof (cases "init_fop_sp_slot s = Inl Hang")
    case True
    with False show ?thesis by (simp add: au_init_fop_sp_blocks agrees_def)
  next
    case nh: False
    from second_block_agrees [OF sw] nh
    have "run (replicate 9 t) (run (replicate 11 t) (goto t L141 g))
            = run (replicate 11 t) (goto t L141 g)"
      by (rule agrees_fixed)
    with r second_block_agrees [OF sw] False show ?thesis
      by (simp add: au_init_fop_sp_blocks)
  qed
next
  case True
  show ?thesis
  proof (cases "static_spin s = Spin_unlocked")
    case False
    with True show ?thesis by (simp add: au_init_fop_sp_blocks agrees_def)
  next
    case u: True
    define s1 where "s1 = s\<lparr>au_sp_fop := (spin_lock_init_all (au_sp_fop s))
                      (AuSp_FIFO := (spin_lock_init_all (au_sp_fop s) AuSp_FIFO)\<lparr>sp_done := 1\<rparr>)\<rparr>"
    from assms True u have l: "pc (threads g t) = L126" and d: "sp_done (tbl g AuSp_FIFO) = 0"
      and sp: "sspin g = Spin_unlocked"
      by (simp_all add: enters_def)
    have sw: "at_switch (run (replicate 10 t) g) t s1"
      unfolding first_block_init [OF l d sp]
      using assms by (simp add: enters_def at_switch_def goto_def s1_def)
    have "replicate 21 t = replicate 10 t @ replicate 11 t"
      by (simp add: numeral_eq_Suc)
    then have "run (replicate 21 t) g = run (replicate 11 t) (run (replicate 10 t) g)"
      by (simp only: run_append)
    with second_block_agrees [OF sw] True u show ?thesis
      by (simp add: au_init_fop_sp_blocks s1_def)
  qed
qed

lemma spins_static_step: "spins_static t g \<Longrightarrow> spins_static t (step t g)"
  unfolding spins_static_def
  by (elim conjE disjE) (auto simp: step_defs split: spinlock_t.splits)

lemma spins_slot_step: "spins_slot t i g \<Longrightarrow> spins_slot t i (step t g)"
  unfolding spins_slot_def
  by (elim conjE disjE) (auto simp: step_defs split: spinlock_t.splits)

lemma au_init_fop_sp_hang:
  "au_init_fop_sp s = Inl Hang \<Longrightarrow>
     (sp_done (au_sp_fop s AuSp_FIFO) = 0 \<and> static_spin s \<noteq> Spin_unlocked)
     \<or> (sp_done (au_sp_fop s AuSp_FIFO) \<noteq> 0
         \<and> (\<exists>i. au_sp_index (f_mode (filp s)) = Some i \<and> sp_done (au_sp_fop s i) = 0
                 \<and> sp_spin (au_sp_fop s i) \<noteq> Spin_unlocked))"
  using au_sp_index_not_FIFO [of "f_mode (filp s)"]
  by (auto simp: au_init_fop_sp_def Let_def spin_lock_init_all_def
      split: if_splits option.splits sum.splits)

lemma au_init_fop_sp_solo_hang:
  assumes "enters g t s" and "au_init_fop_sp s = Inl Hang"
  shows "pc (threads (run (replicate n t) g) t) \<noteq> Ret"
proof -
  from au_init_fop_sp_hang [OF assms(2)] assms(1)
  have "spins_static t g \<or> (\<exists>i. spins_slot t i g)"
    by (auto simp: enters_def spins_static_def spins_slot_def)
  then show ?thesis
  proof
    assume "spins_static t g"
    then have "spins_static t (run (replicate n t) g)"
      by (induction n arbitrary: g) (simp_all add: spins_static_step)
    then show ?thesis by (auto simp: spins_static_def)
  next
    assume "\<exists>i. spins_slot t i g"
    then obtain i where "spins_slot t i g" ..
    then have "spins_slot t i (run (replicate n t) g)"
      by (induction n arbitrary: g) (simp_all add: spins_slot_step)
    then show ?thesis by (auto simp: spins_slot_def)
  qed
qed

end
